theory Spec2Isabelle
  imports Main "HOL-Library.Word"
begin

section \<open>The keyed earthquake cache of \<^verbatim>\<open>pkg/earthquakes/usgs/cache.go\<close>\<close>

subsection \<open>Time\<close>

text \<open>
  A \<^verbatim>\<open>time.Time\<close> is the number of nanoseconds since Go's zero time, a
  \<^verbatim>\<open>time.Duration\<close> a number of nanoseconds. \<^verbatim>\<open>t.Add(d)\<close> is \<open>t + d\<close> and
  \<^verbatim>\<open>t.After(u)\<close> is \<open>u < t\<close>; the cache adds at most one hour to a clock reading, so
  the range limits of the Go types are out of reach.
\<close>

type_synonym Time = int
type_synonym Duration = int

definition Minute :: Duration where
  "Minute = 60 * 1000000000"

definition Hour :: Duration where
  "Hour = 60 * Minute"

subsection \<open>The generated message types\<close>

text \<open>
  The package \<^verbatim>\<open>pb\<close> is generated code outside the sources. Both enums are
  \<^verbatim>\<open>int32\<close> types with named constants; the constructors below are the constants the
  cache names, and one more constructor carries every other number the type admits.
\<close>

datatype Magnitude = Magnitude_MAGNITUDE_ALL | Magnitude_other "32 word"

datatype Past =
    Past_PAST_UNSPECIFIED
  | Past_PAST_HOUR
  | Past_PAST_DAY
  | Past_PAST_7DAYS
  | Past_PAST_30DAYS
  | Past_other "32 word"

text \<open>
  Of an earthquake the cache reads the identifier only; the remaining fields of the
  message are kept as one opaque value.
\<close>

record Earthquake =
  Id :: string
  Details :: string

record EarthquakeCollection =
  Features :: "Earthquake list"

subsection \<open>Errors\<close>

text \<open>
  The two error values of the cache, and any other error value, which only the
  collaborators produce. A Go \<^verbatim>\<open>error\<close> that may be \<^verbatim>\<open>nil\<close> is an \<open>error option\<close>.
\<close>

datatype error = ErrCacheFailure | ErrNotFound | ErrOther string

subsection \<open>Cache entries and the two global maps\<close>

text \<open>
  The counters are Go \<^verbatim>\<open>int\<close>s. The statistics counters are only ever incremented, so
  they are 64-bit words, which wrap. \<^verbatim>\<open>errCountSinceReset\<close> is incremented only under
  the loop guard \<^verbatim>\<open>errCountSinceReset < maxErrorsTotal\<close>, where it cannot overflow,
  and is compared as a signed number: it is an \<open>int\<close>.
\<close>

record stat =
  fetchCount :: "64 word"
  hitCount :: "64 word"

text \<open>
  The mutex of an entry is not a field of the record: the state of the concurrent
  program below keeps it by the key of the entry. A call of \<^verbatim>\<open>cacheGetList\<close> holds it
  from the lookup of the entry to its return; the functions of this section are one
  call that runs by itself.
\<close>

record entry =
  col :: "EarthquakeCollection option"
  expires :: Time
  errCountSinceReset :: int
  lastErrTime :: Time
  lastErr :: "error option"
  stat :: stat

definition maxTriesForRequest :: nat where
  "maxTriesForRequest = 3"

definition maxErrorsTotal :: int where
  "maxErrorsTotal = 10"

definition waitBeforeReset :: Duration where
  "waitBeforeReset = Hour"

text \<open>
  The state: the two package-level maps, and the history of the two effects the cache
  has on its surroundings, the number of clock readings taken so far and the upstream
  requests made so far, oldest first.
\<close>

record world =
  entries :: "string \<rightharpoonup> entry"
  statCopies :: "string \<rightharpoonup> stat"
  clockReads :: nat
  fetchLog :: "(Magnitude \<times> Past) list"

subsection \<open>The collaborators\<close>

text \<open>
  What the cache calls and the sources do not contain is a parameter: the \<^verbatim>\<open>String\<close>
  methods of the two enums, the clock (\<open>nowAt env k\<close> is what the \<open>k\<close>-th call of
  \<^verbatim>\<open>time.Now()\<close> returns), the upstream (\<open>fetchAt env k\<close> is what the \<open>k\<close>-th call of
  \<^verbatim>\<open>fetch\<close> returns for its arguments) and the parser. A parser that reports no error
  returns a collection.
\<close>

record env =
  MagnitudeString :: "Magnitude \<Rightarrow> string"
  PastString :: "Past \<Rightarrow> string"
  nowAt :: "nat \<Rightarrow> Time"
  fetchAt :: "nat \<Rightarrow> Magnitude \<Rightarrow> Past \<Rightarrow> error + string"
  ToEarthquakeCollection :: "string \<Rightarrow> bool \<Rightarrow> error + EarthquakeCollection"

definition now :: "env \<Rightarrow> world \<Rightarrow> Time \<times> world" where
  "now env w = (nowAt env (clockReads w), w\<lparr>clockReads := Suc (clockReads w)\<rparr>)"

definition fetch :: "env \<Rightarrow> Magnitude \<Rightarrow> Past \<Rightarrow> world \<Rightarrow> (error + string) \<times> world" where
  "fetch env magnitude past w =
     (fetchAt env (length (fetchLog w)) magnitude past,
      w\<lparr>fetchLog := fetchLog w @ [(magnitude, past)]\<rparr>)"

subsection \<open>Keys, maximum ages, statistics\<close>

definition resolveCacheKey :: "env \<Rightarrow> Magnitude \<Rightarrow> Past \<Rightarrow> string" where
  "resolveCacheKey env magnitude past =
     MagnitudeString env magnitude @ ''@'' @ PastString env past"

definition resolveMaxAge :: "Magnitude \<Rightarrow> Past \<Rightarrow> Duration" where
  "resolveMaxAge magnitude past =
     (case past of
        Past_PAST_HOUR \<Rightarrow> 3 * Minute
      | Past_PAST_DAY \<Rightarrow> 5 * Minute
      | Past_PAST_7DAYS \<Rightarrow> 10 * Minute
      | Past_PAST_30DAYS \<Rightarrow> 15 * Minute
      | _ \<Rightarrow> 15 * Minute)"

definition cacheGetStat :: "env \<Rightarrow> Magnitude \<Rightarrow> Past \<Rightarrow> world \<Rightarrow> stat" where
  "cacheGetStat env magnitude past w =
     (case statCopies w (resolveCacheKey env magnitude past) of
        None \<Rightarrow> \<lparr>fetchCount = 0, hitCount = 0\<rparr>
      | Some st \<Rightarrow> st)"

definition cacheSetStat :: "env \<Rightarrow> Magnitude \<Rightarrow> Past \<Rightarrow> stat \<Rightarrow> world \<Rightarrow> world" where
  "cacheSetStat env magnitude past st w =
     w\<lparr>statCopies := (statCopies w)(resolveCacheKey env magnitude past \<mapsto> st)\<rparr>"

subsection \<open>Initialisation\<close>

text \<open>
  \<^verbatim>\<open>init\<close> ranges over the two generated tables of enum values; \<open>magns\<close> and \<open>pasts\<close>
  are their values in the order the two \<^verbatim>\<open>range\<close> loops yield them.
\<close>

definition newEntry :: entry where
  "newEntry = \<lparr>col = None, expires = 0, errCountSinceReset = 0, lastErrTime = 0,
     lastErr = None, stat = \<lparr>fetchCount = 0, hitCount = 0\<rparr>\<rparr>"

definition init :: "env \<Rightarrow> Magnitude list \<Rightarrow> Past list \<Rightarrow> world" where
  "init env magns pasts =
     \<lparr>entries =
        fold (\<lambda>magn es. fold (\<lambda>past es'. es'(resolveCacheKey env magn past \<mapsto> newEntry)) pasts es)
          magns Map.empty,
      statCopies = Map.empty, clockReads = 0, fetchLog = []\<rparr>"

subsection \<open>Getting a collection\<close>

text \<open>
  One failed round of the retry loop: the fetch error and the parse error are recorded
  by the same three assignments.
\<close>

definition recordError :: "env \<Rightarrow> error \<Rightarrow> entry \<Rightarrow> world \<Rightarrow> entry \<times> world" where
  "recordError env err e w =
     (let (t, w') = now env w in
        (e\<lparr>errCountSinceReset := errCountSinceReset e + 1, lastErr := Some err,
           lastErrTime := t\<rparr>, w'))"

text \<open>
  The retry loop of \<^verbatim>\<open>cacheGetList\<close>. It returns the collection when a round succeeded
  (the \<^verbatim>\<open>return col, nil\<close> inside the loop) and \<open>None\<close> when the loop ran out, with the
  entry and the state as the rounds left them.
\<close>

function tryLoop ::
  "env \<Rightarrow> Magnitude \<Rightarrow> Past \<Rightarrow> nat \<Rightarrow> entry \<Rightarrow> world
     \<Rightarrow> EarthquakeCollection option \<times> entry \<times> world" where
  "tryLoop env magnitude past round e w =
     (if round < maxTriesForRequest \<and> errCountSinceReset e < maxErrorsTotal then
        (let (res, w1) = fetch env magnitude past w in
           case res of
             Inl err \<Rightarrow>
               (let (e', w2) = recordError env err e w1 in
                  tryLoop env magnitude past (Suc round) e' w2)
           | Inr data \<Rightarrow>
               (case ToEarthquakeCollection env data True of
                  Inl err \<Rightarrow>
                    (let (e', w2) = recordError env err e w1 in
                       tryLoop env magnitude past (Suc round) e' w2)
                | Inr c \<Rightarrow>
                    (let e1 = e\<lparr>col := Some c,
                                stat := (stat e)\<lparr>fetchCount := fetchCount (stat e) + 1\<rparr>\<rparr>;
                         w2 = cacheSetStat env magnitude past (stat e1) w1;
                         (t, w3) = now env w2;
                         e2 = e1\<lparr>expires := t + resolveMaxAge magnitude past,
                                 errCountSinceReset := 0, lastErr := None\<rparr>
                     in (Some c, e2, w3))))
      else (None, e, w))"
  by pat_completeness auto
termination
  by (relation "measure (\<lambda>(env, magnitude, past, round, e, w). maxTriesForRequest - round)")
     auto

text \<open>
  Lines 126 to 168: the lazy reset of the error counter, the retry loop and the result.
  The clock is read for the reset only when the counter has reached the maximum
  (\<^verbatim>\<open>&&\<close> evaluates its right operand only then). The entry is a pointer into the map,
  so what the call did to it is in the map when the call returns.
\<close>

definition refresh ::
  "env \<Rightarrow> Magnitude \<Rightarrow> Past \<Rightarrow> string \<Rightarrow> entry \<Rightarrow> world
     \<Rightarrow> (error + EarthquakeCollection) \<times> world" where
  "refresh env magnitude past key e w =
     (let (e1, w1) =
            (if errCountSinceReset e \<ge> maxErrorsTotal then
               (let (t, w') = now env w in
                  (if t > lastErrTime e + waitBeforeReset
                   then e\<lparr>errCountSinceReset := 0, lastErr := None\<rparr> else e, w'))
             else (e, w));
          (res, e2, w2) = tryLoop env magnitude past 0 e1 w1;
          w3 = w2\<lparr>entries := (entries w2)(key \<mapsto> e2)\<rparr>
      in case res of
           Some c \<Rightarrow> (Inr c, w3)
         | None \<Rightarrow>
             (case lastErr e2 of
                None \<Rightarrow> (Inl ErrCacheFailure, w3)
              | Some err \<Rightarrow> (Inl err, w3)))"

definition cacheGetList ::
  "env \<Rightarrow> Magnitude \<Rightarrow> Past \<Rightarrow> world \<Rightarrow> (error + EarthquakeCollection) \<times> world" where
  "cacheGetList env magnitude past w =
     (let key = resolveCacheKey env magnitude past in
        case entries w key of
          None \<Rightarrow> (Inl ErrCacheFailure, w)
        | Some e \<Rightarrow>
            (case col e of
               None \<Rightarrow> refresh env magnitude past key e w
             | Some c \<Rightarrow>
                 (let (t, w1) = now env w in
                    if t > expires e then
                      refresh env magnitude past key (e\<lparr>col := None\<rparr>) w1
                    else
                      (let e1 = e\<lparr>stat := (stat e)\<lparr>hitCount := hitCount (stat e) + 1\<rparr>\<rparr>;
                           w2 = w1\<lparr>entries := (entries w1)(key \<mapsto> e1)\<rparr>
                       in (Inr c, cacheSetStat env magnitude past (stat e1) w2)))))"

subsection \<open>Getting one earthquake\<close>

text \<open>The inner loop of \<^verbatim>\<open>cacheGetById\<close>: the first feature with the identifier.\<close>

fun findById :: "string \<Rightarrow> Earthquake list \<Rightarrow> Earthquake option" where
  "findById ident [] = None"
| "findById ident (eq # eqs) = (if Id eq = ident then Some eq else findById ident eqs)"

text \<open>
  The outer loop ranges over \<^verbatim>\<open>pb.Past_value\<close>, the table from the names of the enum
  to their numbers that the protobuf generator emits as a \<^verbatim>\<open>map[string]int32\<close> (the
  loop converts its values with \<^verbatim>\<open>pb.Past(past)\<close>). A \<^verbatim>\<open>range\<close> over a Go map yields
  its entries in an order that the language leaves open and that may differ from one
  loop to the next, so the order of one run is the argument \<open>pasts\<close>. The local
  variable \<^verbatim>\<open>lastErr\<close> is \<open>lastE\<close> here, \<open>lastErr\<close> being the field of the entry.
\<close>

fun cacheGetByIdLoop ::
  "env \<Rightarrow> string \<Rightarrow> Past list \<Rightarrow> error option \<Rightarrow> world \<Rightarrow> (error + Earthquake) \<times> world" where
  "cacheGetByIdLoop env ident [] lastE w =
     (case lastE of Some err \<Rightarrow> (Inl err, w) | None \<Rightarrow> (Inl ErrNotFound, w))"
| "cacheGetByIdLoop env ident (past # rest) lastE w =
     (if past \<noteq> Past_PAST_UNSPECIFIED then
        (case cacheGetList env Magnitude_MAGNITUDE_ALL past w of
           (Inl err, w') \<Rightarrow> cacheGetByIdLoop env ident rest (Some err) w'
         | (Inr c, w') \<Rightarrow>
             (case findById ident (Features c) of
                Some eq \<Rightarrow> (Inr eq, w')
              | None \<Rightarrow> cacheGetByIdLoop env ident rest lastE w'))
      else cacheGetByIdLoop env ident rest lastE w)"

definition cacheGetById ::
  "env \<Rightarrow> Past list \<Rightarrow> string \<Rightarrow> world \<Rightarrow> (error + Earthquake) \<times> world" where
  "cacheGetById env pasts ident w = cacheGetByIdLoop env ident pasts None w"

subsection \<open>Notions used to state the properties\<close>

text \<open>
  One round of the retry loop, seen from outside: the outcome of the fetch followed by
  the parse, and what a failed and a successful round do to the entry and to the
  history of effects.
\<close>

definition attempt :: "env \<Rightarrow> nat \<Rightarrow> Magnitude \<Rightarrow> Past \<Rightarrow> error + EarthquakeCollection" where
  "attempt env k magnitude past =
     (case fetchAt env k magnitude past of
        Inl err \<Rightarrow> Inl err
      | Inr data \<Rightarrow> ToEarthquakeCollection env data True)"

definition failed :: "Time \<Rightarrow> error \<Rightarrow> entry \<Rightarrow> entry" where
  "failed t err e =
     e\<lparr>errCountSinceReset := errCountSinceReset e + 1, lastErr := Some err, lastErrTime := t\<rparr>"

definition fetched :: "Time \<Rightarrow> Duration \<Rightarrow> EarthquakeCollection \<Rightarrow> entry \<Rightarrow> entry" where
  "fetched t age c e =
     e\<lparr>col := Some c, stat := (stat e)\<lparr>fetchCount := fetchCount (stat e) + 1\<rparr>,
       expires := t + age, errCountSinceReset := 0, lastErr := None\<rparr>"

definition attempted :: "Magnitude \<Rightarrow> Past \<Rightarrow> world \<Rightarrow> world" where
  "attempted magnitude past w =
     w\<lparr>fetchLog := fetchLog w @ [(magnitude, past)], clockReads := Suc (clockReads w)\<rparr>"

text \<open>
  What every entry satisfies between two calls: the error counter lies between zero and
  the maximum, an error is remembered exactly when the counter is positive, and a
  cached collection is held only when the counter is zero.
\<close>

definition entryOk :: "entry \<Rightarrow> bool" where
  "entryOk e \<longleftrightarrow>
     0 \<le> errCountSinceReset e \<and> errCountSinceReset e \<le> maxErrorsTotal \<and>
     (lastErr e = None) = (errCountSinceReset e = 0) \<and>
     (col e = None \<or> errCountSinceReset e = 0)"

text \<open>
  The statistics copy of a key agrees with the entry of the key: it holds the counters
  of the entry, or it is missing and the counters of the entry are zero.
\<close>

definition mirrorOkAt :: "world \<Rightarrow> string \<Rightarrow> bool" where
  "mirrorOkAt w key =
     (case entries w key of
        None \<Rightarrow> statCopies w key = None
      | Some e \<Rightarrow>
          (case statCopies w key of
             None \<Rightarrow> stat e = \<lparr>fetchCount = 0, hitCount = 0\<rparr>
           | Some st \<Rightarrow> st = stat e))"

text \<open>Calls of \<^verbatim>\<open>cacheGetList\<close> one after the other, with their results in order.\<close>

fun cacheGetListSeq ::
  "env \<Rightarrow> (Magnitude \<times> Past) list \<Rightarrow> world
     \<Rightarrow> (error + EarthquakeCollection) list \<times> world" where
  "cacheGetListSeq env [] w = ([], w)"
| "cacheGetListSeq env ((magnitude, past) # reqs) w =
     (let (res, w1) = cacheGetList env magnitude past w;
          (ress, w2) = cacheGetListSeq env reqs w1
      in (res # ress, w2))"

subsection \<open>An example environment\<close>

text \<open>
  Concrete collaborators on which the definitions can be run: the names of the enum
  values, a parser that rejects the empty feed and reads any other feed as a collection
  of one earthquake whose identifier is the feed's text, and a clock and an upstream of
  the caller's choice. \<open>coldWorld\<close> is the state after \<^verbatim>\<open>init\<close> over the magnitude
  \<^verbatim>\<open>MAGNITUDE_ALL\<close> and the five windows.
\<close>

definition exampleMagnitudeString :: "Magnitude \<Rightarrow> string" where
  "exampleMagnitudeString magnitude =
     (case magnitude of
        Magnitude_MAGNITUDE_ALL \<Rightarrow> ''MAGNITUDE_ALL''
      | Magnitude_other n \<Rightarrow> ''MAGNITUDE_OTHER'')"

definition examplePastString :: "Past \<Rightarrow> string" where
  "examplePastString past =
     (case past of
        Past_PAST_UNSPECIFIED \<Rightarrow> ''PAST_UNSPECIFIED''
      | Past_PAST_HOUR \<Rightarrow> ''PAST_HOUR''
      | Past_PAST_DAY \<Rightarrow> ''PAST_DAY''
      | Past_PAST_7DAYS \<Rightarrow> ''PAST_7DAYS''
      | Past_PAST_30DAYS \<Rightarrow> ''PAST_30DAYS''
      | Past_other n \<Rightarrow> ''PAST_OTHER'')"

definition exampleParse :: "string \<Rightarrow> bool \<Rightarrow> error + EarthquakeCollection" where
  "exampleParse data strict =
     (if data = [] then Inl (ErrOther ''empty feed'')
      else Inr \<lparr>Features = [\<lparr>Id = data, Details = ''M 4.2''\<rparr>]\<rparr>)"

definition exampleEnv ::
  "(nat \<Rightarrow> Time) \<Rightarrow> (nat \<Rightarrow> Magnitude \<Rightarrow> Past \<Rightarrow> error + string) \<Rightarrow> env" where
  "exampleEnv clock upstream =
     \<lparr>MagnitudeString = exampleMagnitudeString, PastString = examplePastString,
      nowAt = clock, fetchAt = upstream, ToEarthquakeCollection = exampleParse\<rparr>"

definition examplePasts :: "Past list" where
  "examplePasts =
     [Past_PAST_UNSPECIFIED, Past_PAST_HOUR, Past_PAST_DAY, Past_PAST_7DAYS, Past_PAST_30DAYS]"

definition coldWorld :: world where
  "coldWorld =
     init (exampleEnv (\<lambda>k. 0) (\<lambda>k magnitude past. Inl ErrNotFound))
       [Magnitude_MAGNITUDE_ALL] examplePasts"

text \<open>An upstream that is down: every request fails, each with an error of its own.\<close>

definition failingUpstream :: "nat \<Rightarrow> Magnitude \<Rightarrow> Past \<Rightarrow> error + string" where
  "failingUpstream k magnitude past =
     Inl (ErrOther (if k = 0 then ''connection refused''
                    else if k = 1 then ''timeout'' else ''bad gateway''))"

definition failingEnv :: env where
  "failingEnv = exampleEnv (\<lambda>k. int k) failingUpstream"

text \<open>
  A run on which the breaker trips: ten upstream requests fail one after the other, at
  the clock readings 0 to 9, after which the upstream is back; \<open>strainedWorld\<close> is the
  state the first three calls for the hour window leave behind, with nine errors
  counted, and \<open>trippedWorld\<close> the state after the fourth. In \<open>outageEnv\<close> every
  later clock reading is one hour after the tenth failure to the nanosecond, in
  \<open>recoveredEnv\<close> it is a nanosecond later.
\<close>

definition hourRequest :: "Magnitude \<times> Past" where
  "hourRequest = (Magnitude_MAGNITUDE_ALL, Past_PAST_HOUR)"

definition strainedEntry :: entry where
  "strainedEntry = newEntry\<lparr>errCountSinceReset := 9, lastErr := Some (ErrOther ''bad gateway''),
     lastErrTime := 8\<rparr>"

definition strainedWorld :: world where
  "strainedWorld = coldWorld\<lparr>entries := (entries coldWorld)(''MAGNITUDE_ALL@PAST_HOUR'' \<mapsto> strainedEntry),
     clockReads := 9, fetchLog := replicate 9 hourRequest\<rparr>"

definition trippedEntry :: entry where
  "trippedEntry = newEntry\<lparr>errCountSinceReset := 10, lastErr := Some (ErrOther ''bad gateway''),
     lastErrTime := 9\<rparr>"

definition trippedWorld :: world where
  "trippedWorld = coldWorld\<lparr>entries := (entries coldWorld)(''MAGNITUDE_ALL@PAST_HOUR'' \<mapsto> trippedEntry),
     clockReads := 10, fetchLog := replicate 10 hourRequest\<rparr>"

definition outageEnv :: env where
  "outageEnv =
     exampleEnv (\<lambda>k. if k < 10 then int k else 9 + Hour)
       (\<lambda>k magnitude past. if k < 10 then failingUpstream k magnitude past else Inr ''eq42'')"

definition recoveredEnv :: env where
  "recoveredEnv =
     exampleEnv (\<lambda>k. if k < 10 then int k else 10 + Hour)
       (\<lambda>k magnitude past. if k < 10 then failingUpstream k magnitude past else Inr ''eq42'')"

text \<open>
  A run with one successful fetch: the upstream answers, the collection for the hour
  window is stored at the clock reading 1000 and expires three minutes later;
  \<open>warmWorld\<close> is the state after that call. In \<open>expiryEnv\<close> every later clock reading
  is the expiry time to the nanosecond, in \<open>lateEnv\<close> it is a nanosecond later.
\<close>

definition quakes :: EarthquakeCollection where
  "quakes = \<lparr>Features = [\<lparr>Id = ''eq42'', Details = ''M 4.2''\<rparr>]\<rparr>"

definition warmEntry :: entry where
  "warmEntry = newEntry\<lparr>col := Some quakes, expires := 1000 + 3 * Minute,
     stat := \<lparr>fetchCount = 1, hitCount = 0\<rparr>\<rparr>"

definition warmWorld :: world where
  "warmWorld = coldWorld\<lparr>entries := (entries coldWorld)(''MAGNITUDE_ALL@PAST_HOUR'' \<mapsto> warmEntry),
     statCopies := [''MAGNITUDE_ALL@PAST_HOUR'' \<mapsto> \<lparr>fetchCount = 1, hitCount = 0\<rparr>],
     clockReads := 1, fetchLog := [hourRequest]\<rparr>"

definition expiryEnv :: env where
  "expiryEnv =
     exampleEnv (\<lambda>k. if k = 0 then 1000 else 1000 + 3 * Minute)
       (\<lambda>k magnitude past. Inr ''eq42'')"

definition lateEnv :: env where
  "lateEnv =
     exampleEnv (\<lambda>k. if k = 0 then 1000 else 1001 + 3 * Minute)
       (\<lambda>k magnitude past. Inr ''eq42'')"

text \<open>
  An entry that holds a collection while its error counter is at the maximum. No run
  produces it (see \<open>entryOk\<close>); it shows what the expiry alone does to such an entry.
\<close>

definition staleTrippedEntry :: entry where
  "staleTrippedEntry = trippedEntry\<lparr>col := Some quakes\<rparr>"

definition staleTrippedWorld :: world where
  "staleTrippedWorld =
     trippedWorld\<lparr>entries := (entries trippedWorld)(''MAGNITUDE_ALL@PAST_HOUR'' \<mapsto> staleTrippedEntry)\<rparr>"

subsection \<open>The lookup by identifier, as the specification words it\<close>

text \<open>
  The records of a window's result that carry the identifier, and the error of a
  window's result.
\<close>

fun matchesIn :: "string \<Rightarrow> error + EarthquakeCollection \<Rightarrow> Earthquake list" where
  "matchesIn ident (Inl err) = []"
| "matchesIn ident (Inr c) = filter (\<lambda>eq. Id eq = ident) (Features c)"

fun errorsOf :: "error + EarthquakeCollection \<Rightarrow> error list" where
  "errorsOf (Inl err) = [err]"
| "errorsOf (Inr c) = []"

text \<open>
  The calls of \<open>cacheGetList\<close> the lookup makes, with their results, in the order made:
  one for each window of the enumeration other than the unspecified one, at the
  magnitude \<^verbatim>\<open>MAGNITUDE_ALL\<close>, up to and including the first whose collection contains
  the identifier.
\<close>

fun windowCalls ::
  "env \<Rightarrow> string \<Rightarrow> Past list \<Rightarrow> world
     \<Rightarrow> (Past \<times> (error + EarthquakeCollection)) list \<times> world" where
  "windowCalls env ident [] w = ([], w)"
| "windowCalls env ident (past # rest) w =
     (if past = Past_PAST_UNSPECIFIED then windowCalls env ident rest w
      else
        (let (res, w1) = cacheGetList env Magnitude_MAGNITUDE_ALL past w in
           if matchesIn ident res \<noteq> [] then ([(past, res)], w1)
           else (let (calls, w2) = windowCalls env ident rest w1 in ((past, res) # calls, w2))))"

text \<open>
  The answer from the calls made: the first matching record; without a match the most
  recent error; without an error \<open>ErrNotFound\<close>.
\<close>

definition firstMatch ::
  "string \<Rightarrow> (Past \<times> (error + EarthquakeCollection)) list \<Rightarrow> Earthquake option" where
  "firstMatch ident calls =
     (case concat (map (\<lambda>call. matchesIn ident (snd call)) calls) of
        [] \<Rightarrow> None
      | eq # eqs \<Rightarrow> Some eq)"

definition latestError :: "(Past \<times> (error + EarthquakeCollection)) list \<Rightarrow> error option" where
  "latestError calls =
     (case rev (concat (map (\<lambda>call. errorsOf (snd call)) calls)) of
        [] \<Rightarrow> None
      | err # errs \<Rightarrow> Some err)"

definition byIdAnswer ::
  "string \<Rightarrow> (Past \<times> (error + EarthquakeCollection)) list \<Rightarrow> error + Earthquake" where
  "byIdAnswer ident calls =
     (case firstMatch ident calls of
        Some eq \<Rightarrow> Inr eq
      | None \<Rightarrow> (case latestError calls of Some err \<Rightarrow> Inl err | None \<Rightarrow> Inl ErrNotFound))"

text \<open>
  Four windows of which the seven-day one alone contains \<open>eq42\<close> and the thirty-day
  one is down.
\<close>

definition windowsEnv :: env where
  "windowsEnv =
     exampleEnv (\<lambda>k. int k)
       (\<lambda>k magnitude past.
          case past of
            Past_PAST_HOUR \<Rightarrow> Inr ''eq1''
          | Past_PAST_DAY \<Rightarrow> Inr ''eq2''
          | Past_PAST_7DAYS \<Rightarrow> Inr ''eq42''
          | _ \<Rightarrow> Inl (ErrOther ''timeout''))"

text \<open>
  An upstream that answers every request with the feed \<open>eq42\<close>; four windows of which
  none contains \<open>eq42\<close>, the hour and the thirty-day one being down with an error of
  their own; and the collections of one earthquake the example parser reads.
\<close>

definition healthyEnv :: env where
  "healthyEnv = exampleEnv (\<lambda>k. int k) (\<lambda>k magnitude past. Inr ''eq42'')"

definition flakyEnv :: env where
  "flakyEnv =
     exampleEnv (\<lambda>k. int k)
       (\<lambda>k magnitude past.
          case past of
            Past_PAST_HOUR \<Rightarrow> Inl (ErrOther ''hour feed down'')
          | Past_PAST_DAY \<Rightarrow> Inr ''eq1''
          | Past_PAST_7DAYS \<Rightarrow> Inr ''eq2''
          | _ \<Rightarrow> Inl (ErrOther ''month feed down''))"

definition oneQuake :: "string \<Rightarrow> EarthquakeCollection" where
  "oneQuake ident = \<lparr>Features = [\<lparr>Id = ident, Details = ''M 4.2''\<rparr>]\<rparr>"

subsection \<open>Concurrent calls\<close>

text \<open>
  Several goroutines call \<^verbatim>\<open>cacheGetList\<close> at once. Where a goroutine stands in its
  call: it has entered the function (line 102); it has found the entry and is about to
  call \<^verbatim>\<open>entry.mu.Lock()\<close> (line 111); it holds the lock and is at line 115; it holds
  the lock and is at the head of the retry loop (line 137) with \<^verbatim>\<open>round\<close> rounds done;
  it holds the lock and has called \<^verbatim>\<open>fetch\<close> (line 138), which has not returned yet,
  in the given round and as the upstream request of the given number; it has
  returned, the deferred \<^verbatim>\<open>Unlock\<close> done.
\<close>

datatype goroutine =
    Called Magnitude Past
  | AtLock Magnitude Past
  | Locked Magnitude Past
  | AtLoop Magnitude Past nat
  | InFetch Magnitude Past nat nat
  | Returned "error + EarthquakeCollection"

text \<open>
  The state of the program: the package-level maps with the history of effects, the
  mutex \<^verbatim>\<open>mu\<close> of each entry, by the key of the entry (true when locked), and the
  goroutines. The entries are shared: a goroutine holds a pointer to the entry of its
  key (line 103), which is the entry the map has under the key, since \<^verbatim>\<open>entries\<close> is
  written by \<^verbatim>\<open>init\<close> only.
\<close>

record system =
  globals :: world
  mu :: "string \<Rightarrow> bool"
  goroutines :: "goroutine list"

text \<open>
  Lines 126 to 132 on the entry of the key, which is changed in place: the lazy reset
  of the error counter.
\<close>

definition settle :: "env \<Rightarrow> string \<Rightarrow> entry \<Rightarrow> world \<Rightarrow> world" where
  "settle env key e w =
     (if errCountSinceReset e \<ge> maxErrorsTotal then
        (let (t, w') = now env w in
           w'\<lparr>entries := (entries w')(key \<mapsto>
             (if t > lastErrTime e + waitBeforeReset
              then e\<lparr>errCountSinceReset := 0, lastErr := None\<rparr> else e))\<rparr>)
      else w\<lparr>entries := (entries w)(key \<mapsto> e)\<rparr>)"

text \<open>
  One step of goroutine \<open>t\<close>, from where it stands to the next place. \<^verbatim>\<open>Lock\<close> on a
  locked mutex blocks: the goroutine stays where it is, and so does one that has
  returned. \<^verbatim>\<open>Lock\<close> on a free mutex locks it. A goroutine that holds the lock runs
  lines 115 to 132 in one step, calls \<^verbatim>\<open>fetch\<close> or leaves the loop in one step, and in
  one step takes the answer of \<^verbatim>\<open>fetch\<close> through the parser to the head of the loop
  or to the \<^verbatim>\<open>return\<close>; every \<^verbatim>\<open>return\<close> after line 111 unlocks the mutex. The
  upstream request is written to the history when \<^verbatim>\<open>fetch\<close> is called, and its number
  there decides the answer. What a step does to the entry, the statistics copy and the
  clock is what \<open>cacheGetList\<close> does there; the write of the statistics copy counts as
  one step.
\<close>

definition step :: "env \<Rightarrow> nat \<Rightarrow> system \<Rightarrow> system" where
  "step env t s =
     (if t < length (goroutines s) then
        (case goroutines s ! t of
           Called magnitude past \<Rightarrow>
             (case entries (globals s) (resolveCacheKey env magnitude past) of
                None \<Rightarrow> s\<lparr>goroutines := (goroutines s)[t := Returned (Inl ErrCacheFailure)]\<rparr>
              | Some e \<Rightarrow> s\<lparr>goroutines := (goroutines s)[t := AtLock magnitude past]\<rparr>)
         | AtLock magnitude past \<Rightarrow>
             (let key = resolveCacheKey env magnitude past in
                if mu s key then s
                else s\<lparr>mu := (mu s)(key := True),
                       goroutines := (goroutines s)[t := Locked magnitude past]\<rparr>)
         | Locked magnitude past \<Rightarrow>
             (let key = resolveCacheKey env magnitude past; w = globals s in
                case entries w key of
                  None \<Rightarrow> s
                | Some e \<Rightarrow>
                    (case col e of
                       None \<Rightarrow>
                         s\<lparr>globals := settle env key e w,
                           goroutines := (goroutines s)[t := AtLoop magnitude past 0]\<rparr>
                     | Some c \<Rightarrow>
                         (let (tm, w1) = now env w in
                            if tm > expires e then
                              s\<lparr>globals := settle env key (e\<lparr>col := None\<rparr>) w1,
                                goroutines := (goroutines s)[t := AtLoop magnitude past 0]\<rparr>
                            else
                              (let e1 = e\<lparr>stat := (stat e)\<lparr>hitCount := hitCount (stat e) + 1\<rparr>\<rparr>;
                                   w2 = w1\<lparr>entries := (entries w1)(key \<mapsto> e1)\<rparr>
                               in s\<lparr>globals := cacheSetStat env magnitude past (stat e1) w2,
                                    mu := (mu s)(key := False),
                                    goroutines := (goroutines s)[t := Returned (Inr c)]\<rparr>))))
         | AtLoop magnitude past round \<Rightarrow>
             (let key = resolveCacheKey env magnitude past; w = globals s in
                case entries w key of
                  None \<Rightarrow> s
                | Some e \<Rightarrow>
                    if round < maxTriesForRequest \<and> errCountSinceReset e < maxErrorsTotal then
                      s\<lparr>globals := snd (fetch env magnitude past w),
                        goroutines := (goroutines s)
                          [t := InFetch magnitude past round (length (fetchLog w))]\<rparr>
                    else
                      s\<lparr>mu := (mu s)(key := False),
                        goroutines := (goroutines s)
                          [t := Returned (case lastErr e of
                                 None \<Rightarrow> Inl ErrCacheFailure | Some err \<Rightarrow> Inl err)]\<rparr>)
         | InFetch magnitude past round k \<Rightarrow>
             (let key = resolveCacheKey env magnitude past; w = globals s in
                case entries w key of
                  None \<Rightarrow> s
                | Some e \<Rightarrow>
                    (case fetchAt env k magnitude past of
                       Inl err \<Rightarrow>
                         (let (e', w') = recordError env err e w in
                            s\<lparr>globals := w'\<lparr>entries := (entries w')(key \<mapsto> e')\<rparr>,
                              goroutines := (goroutines s)[t := AtLoop magnitude past (Suc round)]\<rparr>)
                     | Inr data \<Rightarrow>
                         (case ToEarthquakeCollection env data True of
                            Inl err \<Rightarrow>
                              (let (e', w') = recordError env err e w in
                                 s\<lparr>globals := w'\<lparr>entries := (entries w')(key \<mapsto> e')\<rparr>,
                                   goroutines := (goroutines s)
                                     [t := AtLoop magnitude past (Suc round)]\<rparr>)
                          | Inr c \<Rightarrow>
                              (let e1 = e\<lparr>col := Some c,
                                          stat := (stat e)\<lparr>fetchCount := fetchCount (stat e) + 1\<rparr>\<rparr>;
                                   w2 = cacheSetStat env magnitude past (stat e1) w;
                                   (tm, w3) = now env w2;
                                   e2 = e1\<lparr>expires := tm + resolveMaxAge magnitude past,
                                           errCountSinceReset := 0, lastErr := None\<rparr>
                               in s\<lparr>globals := w3\<lparr>entries := (entries w3)(key \<mapsto> e2)\<rparr>,
                                    mu := (mu s)(key := False),
                                    goroutines := (goroutines s)[t := Returned (Inr c)]\<rparr>))))
         | Returned res \<Rightarrow> s)
      else s)"

text \<open>
  A run under a schedule, the list of the goroutines in the order in which they take
  their steps; and the program at the moment the calls are made, no mutex locked.
\<close>

fun run :: "env \<Rightarrow> nat list \<Rightarrow> system \<Rightarrow> system" where
  "run env [] s = s"
| "run env (t # sched) s = run env sched (step env t s)"

definition spawn :: "world \<Rightarrow> (Magnitude \<times> Past) list \<Rightarrow> system" where
  "spawn w reqs =
     \<lparr>globals = w, mu = (\<lambda>key. False),
      goroutines = map (\<lambda>(magnitude, past). Called magnitude past) reqs\<rparr>"

text \<open>
  A goroutine holds the lock of the entry of a key from \<^verbatim>\<open>Lock\<close> to its return; its
  upstream request for the key is in flight while \<^verbatim>\<open>fetch\<close> has not returned; and
  the rounds of the retry loop it has spent, which are all of them for a goroutine that
  has returned, since it begins no other.
\<close>

fun holds :: "env \<Rightarrow> string \<Rightarrow> goroutine \<Rightarrow> bool" where
  "holds env key (Locked magnitude past) = (resolveCacheKey env magnitude past = key)"
| "holds env key (AtLoop magnitude past round) = (resolveCacheKey env magnitude past = key)"
| "holds env key (InFetch magnitude past round k) = (resolveCacheKey env magnitude past = key)"
| "holds env key g = False"

fun inFlight :: "env \<Rightarrow> string \<Rightarrow> goroutine \<Rightarrow> bool" where
  "inFlight env key (InFetch magnitude past round k) = (resolveCacheKey env magnitude past = key)"
| "inFlight env key g = False"

fun spent :: "goroutine \<Rightarrow> nat" where
  "spent (AtLoop magnitude past round) = round"
| "spent (InFetch magnitude past round k) = Suc round"
| "spent (Returned res) = maxTriesForRequest"
| "spent g = 0"

text \<open>
  The request a goroutine is working on, while it has not returned; and whether it is
  inside the retry loop.
\<close>

fun requestOf :: "goroutine \<Rightarrow> (Magnitude \<times> Past) option" where
  "requestOf (Called magnitude past) = Some (magnitude, past)"
| "requestOf (AtLock magnitude past) = Some (magnitude, past)"
| "requestOf (Locked magnitude past) = Some (magnitude, past)"
| "requestOf (AtLoop magnitude past round) = Some (magnitude, past)"
| "requestOf (InFetch magnitude past round k) = Some (magnitude, past)"
| "requestOf (Returned res) = None"

fun inLoop :: "goroutine \<Rightarrow> bool" where
  "inLoop (AtLoop magnitude past round) = True"
| "inLoop (InFetch magnitude past round k) = True"
| "inLoop g = False"

text \<open>
  What holds of the goroutines at every moment of every run. Mutual exclusion: the
  mutex of a key is locked while a goroutine holds it, and no second goroutine holds
  it.
\<close>

definition exclusive :: "env \<Rightarrow> system \<Rightarrow> bool" where
  "exclusive env s \<longleftrightarrow>
     (\<forall>t<length (goroutines s). \<forall>key. holds env key (goroutines s ! t) \<longrightarrow>
        mu s key \<and> (\<forall>t'<length (goroutines s). holds env key (goroutines s ! t') \<longrightarrow> t' = t))"

text \<open>
  No goroutine has spent more than \<^verbatim>\<open>maxTriesForRequest\<close> rounds, and the upstream
  requests made since the history had \<open>n\<close> of them are at most the rounds spent.
\<close>

definition within :: "nat \<Rightarrow> system \<Rightarrow> bool" where
  "within n s \<longleftrightarrow>
     (\<forall>t<length (goroutines s). spent (goroutines s ! t) \<le> maxTriesForRequest) \<and>
     length (fetchLog (globals s)) \<le> n + sum_list (map spent (goroutines s))"

text \<open>All the goroutines that have not returned are calls for one request.\<close>

definition allOn :: "Magnitude \<Rightarrow> Past \<Rightarrow> system \<Rightarrow> bool" where
  "allOn magnitude past s \<longleftrightarrow>
     (\<forall>t<length (goroutines s). requestOf (goroutines s ! t) = None \<or>
        requestOf (goroutines s ! t) = Some (magnitude, past))"

text \<open>
  Calls for one request on a key that was cold when the history had \<open>n\<close> upstream
  requests, while no call has returned an error. Either the key is still cold: then
  the only requests made since are those of the goroutine inside the retry loop, if
  there is one. Or a collection has been stored, with an expiry that is a clock reading
  plus the maximum age: then no goroutine is inside the retry loop, and at most
  \<^verbatim>\<open>maxTriesForRequest\<close> requests were made.
\<close>

definition calm :: "env \<Rightarrow> Magnitude \<Rightarrow> Past \<Rightarrow> nat \<Rightarrow> system \<Rightarrow> bool" where
  "calm env magnitude past n s \<longleftrightarrow>
     (\<exists>e. entries (globals s) (resolveCacheKey env magnitude past) = Some e \<and>
        (if col e = None then
           (\<forall>t<length (goroutines s). inLoop (goroutines s ! t) \<longrightarrow>
              length (fetchLog (globals s)) = n + spent (goroutines s ! t)) \<and>
           ((\<forall>t<length (goroutines s). \<not> inLoop (goroutines s ! t)) \<longrightarrow>
              length (fetchLog (globals s)) = n)
         else
           (\<exists>j. expires e = nowAt env j + resolveMaxAge magnitude past) \<and>
           (\<forall>t<length (goroutines s). \<not> inLoop (goroutines s ! t)) \<and>
           length (fetchLog (globals s)) \<le> n + maxTriesForRequest))"

definition coalesced :: "env \<Rightarrow> Magnitude \<Rightarrow> Past \<Rightarrow> nat \<Rightarrow> system \<Rightarrow> bool" where
  "coalesced env magnitude past n s \<longleftrightarrow>
     (\<exists>t<length (goroutines s). \<exists>err. goroutines s ! t = Returned (Inl err)) \<or>
     calm env magnitude past n s"

text \<open>
  A goroutine that has found the entry of its key finds it at every later step.
\<close>

definition present :: "env \<Rightarrow> system \<Rightarrow> bool" where
  "present env s \<longleftrightarrow>
     (\<forall>t<length (goroutines s). \<forall>magnitude past.
        requestOf (goroutines s ! t) = Some (magnitude, past) \<longrightarrow>
          goroutines s ! t = Called magnitude past \<or>
          entries (globals s) (resolveCacheKey env magnitude past) \<noteq> None)"

section \<open>Properties\<close>

subsection \<open>The retry loop\<close>

declare tryLoop.simps [simp del]

lemma tryLoop_step:
  "tryLoop env m p r e w =
     (if r < maxTriesForRequest \<and> errCountSinceReset e < maxErrorsTotal then
        (case attempt env (length (fetchLog w)) m p of
           Inl err \<Rightarrow>
             tryLoop env m p (Suc r) (failed (nowAt env (clockReads w)) err e) (attempted m p w)
         | Inr c \<Rightarrow>
             (Some c, fetched (nowAt env (clockReads w)) (resolveMaxAge m p) c e,
              (attempted m p w)\<lparr>statCopies := (statCopies w)(resolveCacheKey env m p \<mapsto>
                 (stat e)\<lparr>fetchCount := fetchCount (stat e) + 1\<rparr>)\<rparr>))
      else (None, e, w))"
  apply (subst tryLoop.simps)
  apply (simp add: attempt_def failed_def fetched_def attempted_def fetch_def recordError_def
      now_def cacheSetStat_def Let_def split: sum.splits)
  done

lemma attempted_fields [simp]:
  "entries (attempted m p w) = entries w"
  "statCopies (attempted m p w) = statCopies w"
  "clockReads (attempted m p w) = Suc (clockReads w)"
  "fetchLog (attempted m p w) = fetchLog w @ [(m, p)]"
  by (simp_all add: attempted_def)

text \<open>Induction over the rounds of the loop: it stops, or a failed round is followed by the rest.\<close>

lemma tryLoop_rounds [case_names stop round]:
  assumes "\<And>r e w. \<not> (r < maxTriesForRequest \<and> errCountSinceReset e < maxErrorsTotal) \<Longrightarrow> P r e w"
    and "\<And>r e w. r < maxTriesForRequest \<Longrightarrow> errCountSinceReset e < maxErrorsTotal \<Longrightarrow>
           (\<And>err. attempt env (length (fetchLog w)) m p = Inl err \<Longrightarrow>
              P (Suc r) (failed (nowAt env (clockReads w)) err e) (attempted m p w)) \<Longrightarrow>
           P r e w"
  shows "P r e w"
proof (induction n \<equiv> "maxTriesForRequest - r" arbitrary: r e w)
  case 0
  then show ?case using assms(1) by simp
next
  case (Suc n)
  show ?case
  proof (cases "r < maxTriesForRequest \<and> errCountSinceReset e < maxErrorsTotal")
    case True
    have "P (Suc r) e' w'" for e' w'
      using Suc.hyps(1) [of "Suc r" e' w'] Suc.hyps(2) by simp
    then show ?thesis using assms(2) True by blast
  next
    case False
    then show ?thesis using assms(1) by blast
  qed
qed

lemma tryLoop_entries:
  "tryLoop env m p r e w = (res, e', w') \<Longrightarrow> entries w' = entries w"
proof (induction r e w rule: tryLoop_rounds [where env = env and m = m and p = p])
  case (stop r e w)
  then show ?case by (subst (asm) tryLoop_step) auto
next
  case (round r e w)
  from round.prems round.hyps round.IH show ?case
    by (subst (asm) tryLoop_step) (auto split: sum.splits)
qed

lemma tryLoop_effects:
  "tryLoop env m p r e w = (res, e', w') \<Longrightarrow>
     \<exists>k. k \<le> maxTriesForRequest - r \<and>
         fetchLog w' = fetchLog w @ replicate k (m, p) \<and>
         clockReads w' = clockReads w + k \<and>
         (res = None \<and> k < maxTriesForRequest - r \<longrightarrow> maxErrorsTotal \<le> errCountSinceReset e') \<and>
         (res \<noteq> None \<longrightarrow> 0 < k)"
proof (induction r e w rule: tryLoop_rounds [where env = env and m = m and p = p])
  case (stop r e w)
  then show ?case by (subst (asm) tryLoop_step) auto
next
  case (round r e w)
  show ?case
  proof (cases "attempt env (length (fetchLog w)) m p")
    case (Inl err)
    with round.prems round.hyps
    have "tryLoop env m p (Suc r) (failed (nowAt env (clockReads w)) err e) (attempted m p w)
            = (res, e', w')"
      by (subst (asm) tryLoop_step) simp
    from round.IH [OF Inl this] obtain k where
      k: "k \<le> maxTriesForRequest - Suc r"
         "fetchLog w' = fetchLog (attempted m p w) @ replicate k (m, p)"
         "clockReads w' = clockReads (attempted m p w) + k"
         "res = None \<and> k < maxTriesForRequest - Suc r \<longrightarrow> maxErrorsTotal \<le> errCountSinceReset e'"
         "res \<noteq> None \<longrightarrow> 0 < k"
      by blast
    show ?thesis
      apply (rule exI [where x = "Suc k"])
      using k round.hyps by (auto simp: replicate_app_Cons_same)
  next
    case (Inr c)
    with round.prems round.hyps
    have "res = Some c" "w' = (attempted m p w)\<lparr>statCopies := (statCopies w)(resolveCacheKey env m p \<mapsto>
                 (stat e)\<lparr>fetchCount := fetchCount (stat e) + 1\<rparr>)\<rparr>"
      by (subst (asm) tryLoop_step, simp)+
    then show ?thesis
      apply -
      apply (rule exI [where x = "Suc 0"])
      using round.hyps by auto
  qed
qed

lemma failed_fields [simp]:
  "col (failed t err e) = col e"
  "expires (failed t err e) = expires e"
  "stat (failed t err e) = stat e"
  "lastErr (failed t err e) = Some err"
  "lastErrTime (failed t err e) = t"
  "errCountSinceReset (failed t err e) = errCountSinceReset e + 1"
  by (simp_all add: failed_def)

lemma fetched_fields [simp]:
  "col (fetched t age c e) = Some c"
  "expires (fetched t age c e) = t + age"
  "stat (fetched t age c e) = (stat e)\<lparr>fetchCount := fetchCount (stat e) + 1\<rparr>"
  "lastErr (fetched t age c e) = None"
  "lastErrTime (fetched t age c e) = lastErrTime e"
  "errCountSinceReset (fetched t age c e) = 0"
  by (simp_all add: fetched_def)

lemma tryLoop_None:
  "tryLoop env m p r e w = (None, e', w') \<Longrightarrow>
     statCopies w' = statCopies w \<and> stat e' = stat e \<and> col e' = col e \<and> expires e' = expires e"
proof (induction r e w rule: tryLoop_rounds [where env = env and m = m and p = p])
  case (stop r e w)
  then show ?case by (subst (asm) tryLoop_step) auto
next
  case (round r e w)
  from round.prems round.hyps round.IH show ?case
    by (subst (asm) tryLoop_step) (auto split: sum.splits)
qed

lemma tryLoop_Some:
  "tryLoop env m p r e w = (Some c, e', w') \<Longrightarrow>
     col e' = Some c \<and> errCountSinceReset e' = 0 \<and> lastErr e' = None \<and>
     stat e' = (stat e)\<lparr>fetchCount := fetchCount (stat e) + 1\<rparr> \<and>
     statCopies w' = (statCopies w)(resolveCacheKey env m p \<mapsto> stat e') \<and>
     (\<exists>k. clockReads w' = Suc k \<and> expires e' = nowAt env k + resolveMaxAge m p) \<and>
     (\<exists>n. length (fetchLog w') = Suc n \<and> attempt env n m p = Inr c)"
proof (induction r e w rule: tryLoop_rounds [where env = env and m = m and p = p])
  case (stop r e w)
  then show ?case by (subst (asm) tryLoop_step) auto
next
  case (round r e w)
  from round.prems round.hyps round.IH show ?case
    by (subst (asm) tryLoop_step) (auto split: sum.splits)
qed

lemma tryLoop_entryOk:
  "tryLoop env m p r e w = (res, e', w') \<Longrightarrow> entryOk e \<Longrightarrow> col e = None \<Longrightarrow> entryOk e'"
proof (induction r e w rule: tryLoop_rounds [where env = env and m = m and p = p])
  case (stop r e w)
  then show ?case by (subst (asm) tryLoop_step) auto
next
  case (round r e w)
  have "entryOk (failed t err e)" for t err
    using round.prems(2,3) round.hyps by (auto simp: entryOk_def)
  with round.prems round.hyps round.IH show ?case
    by (subst (asm) tryLoop_step) (auto split: sum.splits simp: entryOk_def)
qed


lemma tryLoop_all_fail:
  "tryLoop env m p r e w = (res, e', w') \<Longrightarrow>
   \<forall>k. length (fetchLog w) \<le> k \<and> k < length (fetchLog w) + (maxTriesForRequest - r) \<longrightarrow>
       attempt env k m p = Inl (err k) \<Longrightarrow>
   errCountSinceReset e + int (maxTriesForRequest - r) \<le> maxErrorsTotal \<Longrightarrow>
     res = None \<and>
     fetchLog w' = fetchLog w @ replicate (maxTriesForRequest - r) (m, p) \<and>
     errCountSinceReset e' = errCountSinceReset e + int (maxTriesForRequest - r) \<and>
     (r < maxTriesForRequest \<longrightarrow> lastErr e' = Some (err (length (fetchLog w') - 1)))"
proof (induction r e w rule: tryLoop_rounds [where env = env and m = m and p = p])
  case (stop r e w)
  then show ?case by (subst (asm) tryLoop_step) auto
next
  case (round r e w)
  let ?n = "length (fetchLog w)"
  have a: "attempt env ?n m p = Inl (err ?n)"
    using round.prems(2) round.hyps(1) by simp
  with round.prems(1) round.hyps
  have run: "tryLoop env m p (Suc r) (failed (nowAt env (clockReads w)) (err ?n) e) (attempted m p w)
            = (res, e', w')"
    by (subst (asm) tryLoop_step) simp
  have rest: "\<forall>k. length (fetchLog (attempted m p w)) \<le> k \<and>
        k < length (fetchLog (attempted m p w)) + (maxTriesForRequest - Suc r) \<longrightarrow>
        attempt env k m p = Inl (err k)"
    using round.prems(2) round.hyps(1) by auto
  have bound: "errCountSinceReset (failed (nowAt env (clockReads w)) (err ?n) e)
        + int (maxTriesForRequest - Suc r) \<le> maxErrorsTotal"
    using round.prems(3) round.hyps(1) by (simp add: failed_def)
  note ih = round.IH [OF a run rest bound]
  have rep: "replicate (maxTriesForRequest - r) (m, p)
      = (m, p) # replicate (maxTriesForRequest - Suc r) (m, p)"
    using round.hyps(1) by (cases "maxTriesForRequest - r") auto
  show ?case
  proof (cases "Suc r < maxTriesForRequest")
    case True
    with ih round.hyps(1) show ?thesis
      by (auto simp: rep failed_def)
  next
    case False
    then have last: "maxTriesForRequest - Suc r = 0" by simp
    from run False have "e' = failed (nowAt env (clockReads w)) (err ?n) e" "w' = attempted m p w"
      by (subst (asm) tryLoop_step, simp)+
    with ih last round.hyps(1) False show ?thesis
      by (auto simp: rep failed_def)
  qed
qed

subsection \<open>One call of \<open>cacheGetList\<close>\<close>

text \<open>The entry as the lazy reset leaves it, and the state after the clock reading it takes.\<close>

lemma refresh_unfold:
  "refresh env m p key e w =
     (let tripped = maxErrorsTotal \<le> errCountSinceReset e;
          e1 = (if tripped \<and> lastErrTime e + waitBeforeReset < nowAt env (clockReads w)
                then e\<lparr>errCountSinceReset := 0, lastErr := None\<rparr> else e);
          w1 = (if tripped then w\<lparr>clockReads := Suc (clockReads w)\<rparr> else w)
      in case tryLoop env m p 0 e1 w1 of
           (res, e2, w2) \<Rightarrow>
             (case res of
                Some c \<Rightarrow> Inr c
              | None \<Rightarrow> (case lastErr e2 of None \<Rightarrow> Inl ErrCacheFailure | Some err \<Rightarrow> Inl err),
              w2\<lparr>entries := (entries w2)(key \<mapsto> e2)\<rparr>))"
  by (auto simp: refresh_def now_def Let_def split: prod.splits option.splits)

lemma refresh_effects:
  assumes "refresh env m p key e w = (res, w')"
  obtains e' k j where
    "entries w' = (entries w)(key \<mapsto> e')" "k \<le> maxTriesForRequest"
    "fetchLog w' = fetchLog w @ replicate k (m, p)"
    "clockReads w' = clockReads w + j + k" "j \<le> 1"
    "\<And>err. res = Inl err \<Longrightarrow>
       statCopies w' = statCopies w \<and> stat e' = stat e \<and> col e' = col e \<and>
       expires e' = expires e \<and>
       (k < maxTriesForRequest \<longrightarrow> maxErrorsTotal \<le> errCountSinceReset e') \<and>
       err = (case lastErr e' of None \<Rightarrow> ErrCacheFailure | Some x \<Rightarrow> x)"
    "\<And>c. res = Inr c \<Longrightarrow>
       0 < k \<and> col e' = Some c \<and> errCountSinceReset e' = 0 \<and> lastErr e' = None \<and>
       stat e' = (stat e)\<lparr>fetchCount := fetchCount (stat e) + 1\<rparr> \<and>
       statCopies w' = (statCopies w)(resolveCacheKey env m p \<mapsto> stat e') \<and>
       (\<exists>i. clockReads w' = Suc i \<and> expires e' = nowAt env i + resolveMaxAge m p) \<and>
       (\<exists>n. length (fetchLog w') = Suc n \<and> attempt env n m p = Inr c)"
proof -
  define tripped where "tripped = (maxErrorsTotal \<le> errCountSinceReset e)"
  define e1 where "e1 = (if tripped \<and> lastErrTime e + waitBeforeReset < nowAt env (clockReads w)
                then e\<lparr>errCountSinceReset := 0, lastErr := None\<rparr> else e)"
  define w1 where "w1 = (if tripped then w\<lparr>clockReads := Suc (clockReads w)\<rparr> else w)"
  obtain r e2 w2 where run: "tryLoop env m p 0 e1 w1 = (r, e2, w2)"
    by (cases "tryLoop env m p 0 e1 w1") auto
  from assms run have res: "res = (case r of Some c \<Rightarrow> Inr c
        | None \<Rightarrow> (case lastErr e2 of None \<Rightarrow> Inl ErrCacheFailure | Some err \<Rightarrow> Inl err))"
    and w': "w' = w2\<lparr>entries := (entries w2)(key \<mapsto> e2)\<rparr>"
    by (simp_all add: refresh_unfold Let_def tripped_def e1_def w1_def)
  have e1: "stat e1 = stat e" "col e1 = col e" "expires e1 = expires e"
    by (simp_all add: e1_def)
  have w1: "entries w1 = entries w" "statCopies w1 = statCopies w" "fetchLog w1 = fetchLog w"
    "clockReads w1 = clockReads w + (if tripped then 1 else 0)"
    by (simp_all add: w1_def)
  from tryLoop_effects [OF run] obtain k where
    k: "k \<le> maxTriesForRequest" "fetchLog w2 = fetchLog w1 @ replicate k (m, p)"
       "clockReads w2 = clockReads w1 + k"
       "r = None \<and> k < maxTriesForRequest \<longrightarrow> maxErrorsTotal \<le> errCountSinceReset e2"
       "r \<noteq> None \<longrightarrow> 0 < k"
    by auto
  note ent = tryLoop_entries [OF run]
  show ?thesis
  proof (cases r)
    case None
    from tryLoop_None [OF run [unfolded None]] None res w' k e1 w1 ent show ?thesis
      by (intro that [of e2 k "if tripped then 1 else 0"]) (auto split: option.splits)
  next
    case (Some c)
    from tryLoop_Some [OF run [unfolded Some]] Some res w' k e1 w1 ent show ?thesis
      by (intro that [of e2 k "if tripped then 1 else 0"]) (auto split: option.splits)
  qed
qed


lemma cacheGetList_unfold:
  "cacheGetList env m p w =
     (case entries w (resolveCacheKey env m p) of
        None \<Rightarrow> (Inl ErrCacheFailure, w)
      | Some e \<Rightarrow>
          (case col e of
             None \<Rightarrow> refresh env m p (resolveCacheKey env m p) e w
           | Some c \<Rightarrow>
               if expires e < nowAt env (clockReads w) then
                 refresh env m p (resolveCacheKey env m p) (e\<lparr>col := None\<rparr>)
                   (w\<lparr>clockReads := Suc (clockReads w)\<rparr>)
               else
                 (Inr c,
                  w\<lparr>clockReads := Suc (clockReads w),
                    entries := (entries w)(resolveCacheKey env m p \<mapsto>
                      e\<lparr>stat := (stat e)\<lparr>hitCount := hitCount (stat e) + 1\<rparr>\<rparr>),
                    statCopies := (statCopies w)(resolveCacheKey env m p \<mapsto>
                      (stat e)\<lparr>hitCount := hitCount (stat e) + 1\<rparr>)\<rparr>)))"
  by (auto simp: cacheGetList_def now_def cacheSetStat_def Let_def split: option.splits)

text \<open>What a call leaves alone, and what it does to the history of upstream requests.\<close>

lemma cacheGetList_frame:
  assumes "cacheGetList env m p w = (res, w')"
  shows "(\<exists>k\<le>maxTriesForRequest. fetchLog w' = fetchLog w @ replicate k (m, p)) \<and>
         (\<forall>key. key \<noteq> resolveCacheKey env m p \<longrightarrow>
            entries w' key = entries w key \<and> statCopies w' key = statCopies w key) \<and>
         (entries w' (resolveCacheKey env m p) = None) = (entries w (resolveCacheKey env m p) = None) \<and>
         clockReads w \<le> clockReads w' \<and>
         (isl res \<longrightarrow> statCopies w' = statCopies w)"
proof (cases "entries w (resolveCacheKey env m p)")
  case None
  with assms show ?thesis by (auto simp: cacheGetList_unfold)
next
  case (Some e)
  show ?thesis
  proof (cases "col e")
    case None
    with Some assms have "refresh env m p (resolveCacheKey env m p) e w = (res, w')"
      by (simp add: cacheGetList_unfold)
    from this Some show ?thesis
      by (elim refresh_effects, cases res) auto
  next
    case c: (Some c)
    show ?thesis
    proof (cases "expires e < nowAt env (clockReads w)")
      case True
      with Some c assms have "refresh env m p (resolveCacheKey env m p) (e\<lparr>col := None\<rparr>)
                   (w\<lparr>clockReads := Suc (clockReads w)\<rparr>) = (res, w')"
        by (simp add: cacheGetList_unfold)
      from this Some show ?thesis
        by (elim refresh_effects, cases res) auto
    next
      case False
      with Some c assms show ?thesis
        by (auto simp: cacheGetList_unfold intro: exI [where x = 0])
    qed
  qed
qed

lemma cacheGetList_mirrorOkAt:
  assumes "cacheGetList env m p w = (res, w')" and "mirrorOkAt w key"
  shows "mirrorOkAt w' key"
proof (cases "key = resolveCacheKey env m p")
  case False
  with cacheGetList_frame [OF assms(1)]
  have "entries w' key = entries w key" "statCopies w' key = statCopies w key"
    by blast+
  with assms(2) show ?thesis
    by (simp add: mirrorOkAt_def cong: option.case_cong)
next
  case key: True
  show ?thesis
  proof (cases "entries w key")
    case None
    with assms key show ?thesis by (auto simp: cacheGetList_unfold)
  next
    case (Some e)
    show ?thesis
    proof (cases "col e")
      case None
      with Some assms key have "refresh env m p key e w = (res, w')"
        by (simp add: cacheGetList_unfold)
      from this Some assms(2) key show ?thesis
        by (elim refresh_effects, cases res) (auto simp: mirrorOkAt_def split: option.splits)
    next
      case c: (Some c)
      show ?thesis
      proof (cases "expires e < nowAt env (clockReads w)")
        case True
        with Some c assms key have "refresh env m p key (e\<lparr>col := None\<rparr>)
                   (w\<lparr>clockReads := Suc (clockReads w)\<rparr>) = (res, w')"
          by (simp add: cacheGetList_unfold)
        from this Some assms(2) key show ?thesis
          by (elim refresh_effects, cases res) (auto simp: mirrorOkAt_def split: option.splits)
      next
        case False
        with Some c assms key show ?thesis
          by (auto simp: cacheGetList_unfold mirrorOkAt_def)
      qed
    qed
  qed
qed

subsection \<open>Running the example environment\<close>

lemmas example_defs =
  exampleEnv_def exampleMagnitudeString_def examplePastString_def exampleParse_def
  examplePasts_def coldWorld_def init_def newEntry_def resolveCacheKey_def

lemmas run_defs =
  cacheGetList_unfold refresh_unfold tryLoop_step attempt_def failed_def fetched_def
  attempted_def maxTriesForRequest_def maxErrorsTotal_def waitBeforeReset_def Hour_def
  Minute_def resolveMaxAge_def Let_def

lemma coldWorld_eq:
  "coldWorld = \<lparr>entries = [''MAGNITUDE_ALL@PAST_UNSPECIFIED'' \<mapsto> newEntry,
       ''MAGNITUDE_ALL@PAST_HOUR'' \<mapsto> newEntry, ''MAGNITUDE_ALL@PAST_DAY'' \<mapsto> newEntry,
       ''MAGNITUDE_ALL@PAST_7DAYS'' \<mapsto> newEntry, ''MAGNITUDE_ALL@PAST_30DAYS'' \<mapsto> newEntry],
     statCopies = Map.empty, clockReads = 0, fetchLog = []\<rparr>"
  by (simp add: example_defs)

lemma example_keys [simp]:
  "resolveCacheKey (exampleEnv clock upstream) Magnitude_MAGNITUDE_ALL Past_PAST_HOUR
     = ''MAGNITUDE_ALL@PAST_HOUR''"
  "resolveCacheKey (exampleEnv clock upstream) Magnitude_MAGNITUDE_ALL Past_PAST_DAY
     = ''MAGNITUDE_ALL@PAST_DAY''"
  "resolveCacheKey (exampleEnv clock upstream) Magnitude_MAGNITUDE_ALL Past_PAST_7DAYS
     = ''MAGNITUDE_ALL@PAST_7DAYS''"
  "resolveCacheKey (exampleEnv clock upstream) Magnitude_MAGNITUDE_ALL Past_PAST_30DAYS
     = ''MAGNITUDE_ALL@PAST_30DAYS''"
  by (simp_all add: example_defs)

lemma exampleEnv_fields [simp]:
  "nowAt (exampleEnv clock upstream) = clock"
  "fetchAt (exampleEnv clock upstream) = upstream"
  "ToEarthquakeCollection (exampleEnv clock upstream) = exampleParse"
  by (simp_all add: exampleEnv_def)

subsection \<open>Maximum ages\<close>

text \<open>
  C6. The maximum age is looked up from the window alone: three minutes for the hour,
  five for the day, ten for seven days, fifteen for thirty days and for every other
  value, whatever the magnitude. A call that obtains a collection from the upstream
  leaves the entry expiring at the clock reading taken after the parse plus the maximum
  age of the pair; that reading is the last one of the call.
\<close>

theorem resolveMaxAge_by_window_sets_expires:
  "resolveMaxAge magnitude Past_PAST_HOUR = 3 * Minute \<and>
   resolveMaxAge magnitude Past_PAST_DAY = 5 * Minute \<and>
   resolveMaxAge magnitude Past_PAST_7DAYS = 10 * Minute \<and>
   (past \<notin> {Past_PAST_HOUR, Past_PAST_DAY, Past_PAST_7DAYS} \<longrightarrow>
      resolveMaxAge magnitude past = 15 * Minute) \<and>
   resolveMaxAge magnitude past = resolveMaxAge magnitude' past \<and>
   (cacheGetList env magnitude past w = (Inr c, w') \<and> fetchLog w' \<noteq> fetchLog w \<longrightarrow>
      (\<exists>e' k. entries w' (resolveCacheKey env magnitude past) = Some e' \<and>
         clockReads w' = Suc k \<and>
         expires e' = nowAt env k + resolveMaxAge magnitude past))"
proof -
  have table: "resolveMaxAge magnitude Past_PAST_HOUR = 3 * Minute"
    "resolveMaxAge magnitude Past_PAST_DAY = 5 * Minute"
    "resolveMaxAge magnitude Past_PAST_7DAYS = 10 * Minute"
    "past \<notin> {Past_PAST_HOUR, Past_PAST_DAY, Past_PAST_7DAYS} \<longrightarrow>
      resolveMaxAge magnitude past = 15 * Minute"
    "resolveMaxAge magnitude past = resolveMaxAge magnitude' past"
    by (simp_all add: resolveMaxAge_def split: Past.splits)
  have stored: "\<exists>e' k. entries w' (resolveCacheKey env magnitude past) = Some e' \<and>
         clockReads w' = Suc k \<and> expires e' = nowAt env k + resolveMaxAge magnitude past"
    if call: "cacheGetList env magnitude past w = (Inr c, w')" and log: "fetchLog w' \<noteq> fetchLog w"
  proof -
    let ?key = "resolveCacheKey env magnitude past"
    from call obtain e where e: "entries w ?key = Some e"
      by (cases "entries w ?key") (auto simp: cacheGetList_unfold)
    from call log e obtain e0 w0 where "refresh env magnitude past ?key e0 w0 = (Inr c, w')"
      by (cases "col e") (auto simp: cacheGetList_unfold split: if_splits)
    then show ?thesis
      by (elim refresh_effects) auto
  qed
  from table stored show ?thesis by blast
qed

theorem resolveMaxAge_by_window_sets_expires_witness:
  "Past_PAST_30DAYS \<notin> {Past_PAST_HOUR, Past_PAST_DAY, Past_PAST_7DAYS} \<and>
   resolveMaxAge Magnitude_MAGNITUDE_ALL Past_PAST_30DAYS = 900000000000 \<and>
   (let env = exampleEnv (\<lambda>k. 1000 + int k) (\<lambda>k magnitude past. Inr ''eq42'');
        c = \<lparr>Features = [\<lparr>Id = ''eq42'', Details = ''M 4.2''\<rparr>]\<rparr>;
        w' = snd (cacheGetList env Magnitude_MAGNITUDE_ALL Past_PAST_HOUR coldWorld)
    in cacheGetList env Magnitude_MAGNITUDE_ALL Past_PAST_HOUR coldWorld = (Inr c, w') \<and>
       fetchLog w' \<noteq> fetchLog coldWorld \<and>
       (\<exists>e'. entries w' ''MAGNITUDE_ALL@PAST_HOUR'' = Some e' \<and> expires e' = 180000001000))"
proof -
  define env where "env = exampleEnv (\<lambda>k. 1000 + int k) (\<lambda>k magnitude past. Inr ''eq42'')"
  define c where "c = \<lparr>Features = [\<lparr>Id = ''eq42'', Details = ''M 4.2''\<rparr>]\<rparr>"
  define w' where "w' = snd (cacheGetList env Magnitude_MAGNITUDE_ALL Past_PAST_HOUR coldWorld)"
  have call: "cacheGetList env Magnitude_MAGNITUDE_ALL Past_PAST_HOUR coldWorld = (Inr c, w')"
    and log: "fetchLog w' \<noteq> fetchLog coldWorld"
    and reads: "clockReads w' = Suc 0"
    unfolding w'_def env_def c_def by (simp_all add: run_defs example_defs)
  have key: "resolveCacheKey env Magnitude_MAGNITUDE_ALL Past_PAST_HOUR = ''MAGNITUDE_ALL@PAST_HOUR''"
    and clock: "nowAt env 0 = 1000"
    by (simp_all add: env_def example_defs)
  note table = resolveMaxAge_by_window_sets_expires
      [where magnitude = Magnitude_MAGNITUDE_ALL and past = Past_PAST_30DAYS
         and magnitude' = Magnitude_MAGNITUDE_ALL and env = env and w = coldWorld
         and c = c and w' = coldWorld]
  note stored = resolveMaxAge_by_window_sets_expires
      [where magnitude = Magnitude_MAGNITUDE_ALL and past = Past_PAST_HOUR
         and magnitude' = Magnitude_MAGNITUDE_ALL and env = env and w = coldWorld
         and c = c and w' = w']
  have "resolveMaxAge Magnitude_MAGNITUDE_ALL Past_PAST_30DAYS = 900000000000"
    using table by (simp add: Minute_def)
  moreover have "\<exists>e'. entries w' ''MAGNITUDE_ALL@PAST_HOUR'' = Some e' \<and> expires e' = 180000001000"
    using stored call log reads key clock by (auto simp: Minute_def)
  ultimately show ?thesis
    using call log
    by (simp only: Let_def env_def [symmetric] c_def [symmetric] w'_def [symmetric]) simp
qed

subsection \<open>Unknown keys\<close>

text \<open>
  After initialisation the store holds exactly the keys of the enumerated pairs, and
  no call adds or removes a key.
\<close>

lemma fold_upd_dom:
  "dom (fold (\<lambda>a es'. es'(f a \<mapsto> v)) xs es) = dom es \<union> f ` set xs"
  by (induction xs arbitrary: es) auto

lemma init_dom:
  "dom (entries (init env magns pasts)) =
     (\<lambda>(magn, past). resolveCacheKey env magn past) ` (set magns \<times> set pasts)"
proof -
  have "dom (fold (\<lambda>magn es. fold (\<lambda>past es'. es'(resolveCacheKey env magn past \<mapsto> newEntry)) pasts es)
          ms es) = dom es \<union> (\<lambda>(magn, past). resolveCacheKey env magn past) ` (set ms \<times> set pasts)"
    for ms es
  proof (induction ms arbitrary: es)
    case Nil
    then show ?case by simp
  next
    case (Cons m ms)
    have "dom (fold (\<lambda>magn es. fold (\<lambda>past es'. es'(resolveCacheKey env magn past \<mapsto> newEntry)) pasts es)
          (m # ms) es) =
        dom (fold (\<lambda>magn es. fold (\<lambda>past es'. es'(resolveCacheKey env magn past \<mapsto> newEntry)) pasts es)
          ms (fold (\<lambda>past es'. es'(resolveCacheKey env m past \<mapsto> newEntry)) pasts es))"
      by (simp only: fold_simps o_apply)
    also have "\<dots> = dom es \<union> resolveCacheKey env m ` set pasts \<union>
        (\<lambda>(magn, past). resolveCacheKey env magn past) ` (set ms \<times> set pasts)"
      by (simp only: Cons.IH fold_upd_dom)
    also have "\<dots> = dom es \<union> (\<lambda>(magn, past). resolveCacheKey env magn past) ` (set (m # ms) \<times> set pasts)"
      by auto
    finally show ?case .
  qed
  from this [of magns Map.empty] show ?thesis by (simp add: init_def)
qed

lemma cacheGetList_dom:
  "dom (entries (snd (cacheGetList env magnitude past w))) = dom (entries w)"
proof -
  obtain res w' where call: "cacheGetList env magnitude past w = (res, w')"
    by (cases "cacheGetList env magnitude past w") auto
  have "(entries w' key = None) = (entries w key = None)" for key
    using cacheGetList_frame [OF call] by (cases "key = resolveCacheKey env magnitude past") auto
  then have "dom (entries w') = dom (entries w)"
    by (auto simp: dom_def)
  with call show ?thesis by simp
qed

text \<open>
  C7. When the key of the pair has no entry in the store, \<open>cacheGetList\<close> returns
  \<open>ErrCacheFailure\<close> and the state is the one before the call: no entry and no
  statistics copy is changed, the upstream is not called and the clock is not read.
  By \<open>init_dom\<close> and \<open>cacheGetList_dom\<close> the keys without an entry are those that are
  the key of no enumerated pair.
\<close>

theorem cacheGetList_unknown_key:
  "entries w (resolveCacheKey env magnitude past) = None \<Longrightarrow>
     cacheGetList env magnitude past w = (Inl ErrCacheFailure, w)"
  by (simp add: cacheGetList_unfold)

theorem cacheGetList_unknown_key_witness:
  "entries coldWorld
     (resolveCacheKey (exampleEnv (\<lambda>k. 0) (\<lambda>k magnitude past. Inr ''eq42'')) (Magnitude_other 7)
        Past_PAST_HOUR) = None \<and>
   cacheGetList (exampleEnv (\<lambda>k. 0) (\<lambda>k magnitude past. Inr ''eq42'')) (Magnitude_other 7)
     Past_PAST_HOUR coldWorld = (Inl ErrCacheFailure, coldWorld)"
proof -
  have absent: "entries coldWorld
     (resolveCacheKey (exampleEnv (\<lambda>k. 0) (\<lambda>k magnitude past. Inr ''eq42'')) (Magnitude_other 7)
        Past_PAST_HOUR) = None"
    by (simp add: example_defs)
  from absent cacheGetList_unknown_key [OF absent] show ?thesis by simp
qed

subsection \<open>More on the retry loop\<close>

lemma tryLoop_None_count:
  "tryLoop env m p r e w = (None, e', w') \<Longrightarrow>
     errCountSinceReset e' =
       errCountSinceReset e + int (length (fetchLog w') - length (fetchLog w)) \<and>
     (fetchLog w' = fetchLog w \<longrightarrow> e' = e) \<and>
     (fetchLog w' \<noteq> fetchLog w \<longrightarrow>
        (\<exists>n err. length (fetchLog w') = Suc n \<and> attempt env n m p = Inl err \<and>
           lastErr e' = Some err))"
proof (induction r e w rule: tryLoop_rounds [where env = env and m = m and p = p])
  case (stop r e w)
  then show ?case by (subst (asm) tryLoop_step) auto
next
  case (round r e w)
  show ?case
  proof (cases "attempt env (length (fetchLog w)) m p")
    case (Inl err)
    with round.prems round.hyps
    have run: "tryLoop env m p (Suc r) (failed (nowAt env (clockReads w)) err e) (attempted m p w)
            = (None, e', w')"
      by (subst (asm) tryLoop_step) simp
    from tryLoop_effects [OF run] obtain k where
      k: "fetchLog w' = fetchLog w @ (m, p) # replicate k (m, p)"
      by auto
    from round.IH [OF Inl run] k Inl show ?thesis
      by (cases "k = 0") auto
  next
    case (Inr c)
    with round.prems round.hyps show ?thesis
      by (subst (asm) tryLoop_step) simp
  qed
qed

lemma tryLoop_first:
  assumes "tryLoop env m p r e w = (res, e', w')"
    and "r < maxTriesForRequest" and "errCountSinceReset e < maxErrorsTotal"
  shows "\<exists>k. fetchLog w' = fetchLog w @ (m, p) # replicate k (m, p)"
proof (cases "attempt env (length (fetchLog w)) m p")
  case (Inl err)
  with assms
  have run: "tryLoop env m p (Suc r) (failed (nowAt env (clockReads w)) err e) (attempted m p w)
            = (res, e', w')"
    by (subst (asm) tryLoop_step) simp
  from tryLoop_effects [OF run] show ?thesis by auto
next
  case (Inr c)
  with assms have "fetchLog w' = fetchLog w @ [(m, p)]"
    by (subst (asm) tryLoop_step) auto
  then show ?thesis by (intro exI [where x = 0]) simp
qed

lemma tryLoop_entries_indep:
  "tryLoop env m p r e (w\<lparr>entries := es\<rparr>) =
     (case tryLoop env m p r e w of (res, e', w') \<Rightarrow> (res, e', w'\<lparr>entries := es\<rparr>))"
proof (induction r e w rule: tryLoop_rounds [where env = env and m = m and p = p])
  case (stop r e w)
  then show ?case by (subst tryLoop_step, subst (2) tryLoop_step) auto
next
  case (round r e w)
  have a: "attempted m p (w\<lparr>entries := es\<rparr>) = (attempted m p w)\<lparr>entries := es\<rparr>"
    by (simp add: attempted_def)
  from round.hyps round.IH show ?case
    by (subst tryLoop_step, subst (2) tryLoop_step) (auto split: sum.splits simp: a)
qed

subsection \<open>The bound on the retries\<close>

text \<open>
  C2. A call never makes more than \<open>maxTriesForRequest\<close> = 3 upstream requests, all of
  them for its own pair. When the entry holds no collection and counts no error, and
  the next three attempts fail (the fetch or the parse reports an error), the call
  makes exactly three requests and returns the error of the third, the last one. A call
  that returns an error after fewer than three requests leaves the error counter at
  \<open>maxErrorsTotal\<close> = 10 or above.
\<close>

theorem cacheGetList_retry_bound:
  "maxTriesForRequest = 3 \<and> maxErrorsTotal = 10 \<and>
   (\<exists>k\<le>maxTriesForRequest.
      fetchLog (snd (cacheGetList env magnitude past w)) =
        fetchLog w @ replicate k (magnitude, past)) \<and>
   (entries w (resolveCacheKey env magnitude past) = Some e \<and> col e = None \<and>
    errCountSinceReset e = 0 \<and>
    (\<forall>k. length (fetchLog w) \<le> k \<and> k < length (fetchLog w) + maxTriesForRequest \<longrightarrow>
       attempt env k magnitude past = Inl (err k)) \<longrightarrow>
      (\<exists>w' e'. cacheGetList env magnitude past w = (Inl (err (length (fetchLog w) + 2)), w') \<and>
         fetchLog w' = fetchLog w @ replicate maxTriesForRequest (magnitude, past) \<and>
         entries w' (resolveCacheKey env magnitude past) = Some e' \<and>
         errCountSinceReset e' = 3 \<and>
         lastErr e' = Some (err (length (fetchLog w) + 2)))) \<and>
   (entries w (resolveCacheKey env magnitude past) \<noteq> None \<and>
    cacheGetList env magnitude past w = (Inl x, w1) \<and>
    length (fetchLog w1) < length (fetchLog w) + maxTriesForRequest \<longrightarrow>
      (\<exists>e1. entries w1 (resolveCacheKey env magnitude past) = Some e1 \<and>
         maxErrorsTotal \<le> errCountSinceReset e1))"
proof -
  let ?key = "resolveCacheKey env magnitude past"
  have bound: "\<exists>k\<le>maxTriesForRequest.
      fetchLog (snd (cacheGetList env magnitude past w)) =
        fetchLog w @ replicate k (magnitude, past)"
    using cacheGetList_frame [of env magnitude past w "fst (cacheGetList env magnitude past w)"
        "snd (cacheGetList env magnitude past w)"]
    by simp
  have exact: "\<exists>w' e'. cacheGetList env magnitude past w = (Inl (err (length (fetchLog w) + 2)), w') \<and>
         fetchLog w' = fetchLog w @ replicate maxTriesForRequest (magnitude, past) \<and>
         entries w' ?key = Some e' \<and> errCountSinceReset e' = 3 \<and>
         lastErr e' = Some (err (length (fetchLog w) + 2))"
    if e: "entries w ?key = Some e" "col e = None" "errCountSinceReset e = 0"
      and fail: "\<forall>k. length (fetchLog w) \<le> k \<and> k < length (fetchLog w) + maxTriesForRequest \<longrightarrow>
       attempt env k magnitude past = Inl (err k)"
  proof -
    obtain r e2 w2 where run: "tryLoop env magnitude past 0 e w = (r, e2, w2)"
      by (cases "tryLoop env magnitude past 0 e w") auto
    from fail have fail': "\<forall>k. length (fetchLog w) \<le> k \<and>
        k < length (fetchLog w) + (maxTriesForRequest - 0) \<longrightarrow>
        attempt env k magnitude past = Inl (err k)"
      by simp
    have room: "errCountSinceReset e + int (maxTriesForRequest - 0) \<le> maxErrorsTotal"
      using e(3) by (simp add: maxTriesForRequest_def maxErrorsTotal_def)
    from tryLoop_all_fail [OF run fail' room]
    have out: "r = None" "fetchLog w2 = fetchLog w @ replicate maxTriesForRequest (magnitude, past)"
      "errCountSinceReset e2 = 3" "lastErr e2 = Some (err (length (fetchLog w) + 2))"
      using e(3) by (simp_all add: maxTriesForRequest_def)
    from e run out show ?thesis
      by (simp add: cacheGetList_unfold refresh_unfold maxErrorsTotal_def)
  qed
  have early: "\<exists>e1. entries w1 ?key = Some e1 \<and> maxErrorsTotal \<le> errCountSinceReset e1"
    if some: "entries w ?key \<noteq> None" and call: "cacheGetList env magnitude past w = (Inl x, w1)"
      and few: "length (fetchLog w1) < length (fetchLog w) + maxTriesForRequest"
  proof -
    from some obtain e0 where e0: "entries w ?key = Some e0" by auto
    from call e0 obtain ea wa where "refresh env magnitude past ?key ea wa = (Inl x, w1)"
      and "fetchLog wa = fetchLog w"
      by (cases "col e0") (auto simp: cacheGetList_unfold split: if_splits)
    then show ?thesis using few
      by (elim refresh_effects) auto
  qed
  from bound exact early show ?thesis
    by (simp add: maxTriesForRequest_def maxErrorsTotal_def)
qed

theorem cacheGetList_retry_bound_witness:
  "entries coldWorld (resolveCacheKey failingEnv Magnitude_MAGNITUDE_ALL Past_PAST_HOUR) = Some newEntry \<and>
   col newEntry = None \<and> errCountSinceReset newEntry = 0 \<and>
   attempt failingEnv 0 Magnitude_MAGNITUDE_ALL Past_PAST_HOUR = Inl (ErrOther ''connection refused'') \<and>
   attempt failingEnv 1 Magnitude_MAGNITUDE_ALL Past_PAST_HOUR = Inl (ErrOther ''timeout'') \<and>
   attempt failingEnv 2 Magnitude_MAGNITUDE_ALL Past_PAST_HOUR = Inl (ErrOther ''bad gateway'') \<and>
   fst (cacheGetList failingEnv Magnitude_MAGNITUDE_ALL Past_PAST_HOUR coldWorld) =
     Inl (ErrOther ''bad gateway'') \<and>
   fetchLog (snd (cacheGetList failingEnv Magnitude_MAGNITUDE_ALL Past_PAST_HOUR coldWorld)) =
     [(Magnitude_MAGNITUDE_ALL, Past_PAST_HOUR), (Magnitude_MAGNITUDE_ALL, Past_PAST_HOUR),
      (Magnitude_MAGNITUDE_ALL, Past_PAST_HOUR)] \<and>
   entries strainedWorld (resolveCacheKey failingEnv Magnitude_MAGNITUDE_ALL Past_PAST_HOUR) \<noteq> None \<and>
   cacheGetList failingEnv Magnitude_MAGNITUDE_ALL Past_PAST_HOUR strainedWorld =
     (Inl (ErrOther ''bad gateway''), trippedWorld) \<and>
   length (fetchLog trippedWorld) < length (fetchLog strainedWorld) + maxTriesForRequest \<and>
   (\<exists>e1. entries trippedWorld (resolveCacheKey failingEnv Magnitude_MAGNITUDE_ALL Past_PAST_HOUR) =
      Some e1 \<and> maxErrorsTotal \<le> errCountSinceReset e1)"
proof -
  define err where "err k = (case failingUpstream k Magnitude_MAGNITUDE_ALL Past_PAST_HOUR of
      Inl x \<Rightarrow> x | Inr d \<Rightarrow> ErrCacheFailure)" for k
  have entry: "entries coldWorld (resolveCacheKey failingEnv Magnitude_MAGNITUDE_ALL Past_PAST_HOUR)
      = Some newEntry" "col newEntry = None" "errCountSinceReset newEntry = 0"
    by (simp_all add: failingEnv_def example_defs)
  have fail: "attempt failingEnv k Magnitude_MAGNITUDE_ALL Past_PAST_HOUR = Inl (err k)" for k
    by (simp add: attempt_def failingEnv_def exampleEnv_def failingUpstream_def err_def)
  have log: "fetchLog coldWorld = []"
    by (simp add: example_defs)
  from cacheGetList_retry_bound [where env = failingEnv and magnitude = Magnitude_MAGNITUDE_ALL
      and past = Past_PAST_HOUR and w = coldWorld and e = newEntry and err = err
      and x = ErrCacheFailure and ?w1.0 = coldWorld] entry fail log
  have "fst (cacheGetList failingEnv Magnitude_MAGNITUDE_ALL Past_PAST_HOUR coldWorld) = Inl (err 2)"
    "fetchLog (snd (cacheGetList failingEnv Magnitude_MAGNITUDE_ALL Past_PAST_HOUR coldWorld)) =
       replicate 3 (Magnitude_MAGNITUDE_ALL, Past_PAST_HOUR)"
    by (auto simp: numeral_2_eq_2)
  note exact = this
  have strained: "entries strainedWorld (resolveCacheKey failingEnv Magnitude_MAGNITUDE_ALL Past_PAST_HOUR)
      \<noteq> None"
    "cacheGetList failingEnv Magnitude_MAGNITUDE_ALL Past_PAST_HOUR strainedWorld =
       (Inl (ErrOther ''bad gateway''), trippedWorld)"
    "length (fetchLog trippedWorld) < length (fetchLog strainedWorld) + maxTriesForRequest"
    by (simp_all add: run_defs failingEnv_def failingUpstream_def strainedWorld_def strainedEntry_def
        trippedWorld_def trippedEntry_def coldWorld_eq newEntry_def hourRequest_def
        numeral_eq_Suc)
  from cacheGetList_retry_bound [where env = failingEnv and magnitude = Magnitude_MAGNITUDE_ALL
      and past = Past_PAST_HOUR and w = strainedWorld and e = strainedEntry and err = err
      and x = "ErrOther ''bad gateway''" and ?w1.0 = trippedWorld] strained
  have early: "\<exists>e1. entries trippedWorld (resolveCacheKey failingEnv Magnitude_MAGNITUDE_ALL Past_PAST_HOUR) =
      Some e1 \<and> maxErrorsTotal \<le> errCountSinceReset e1"
    by blast
  from exact strained early entry fail [of 0] fail [of 1] fail [of 2] show ?thesis
    by (simp add: err_def failingUpstream_def numeral_3_eq_3)
qed

subsection \<open>The breaker\<close>

lemma entryOk_tripped:
  "entryOk e \<Longrightarrow> maxErrorsTotal \<le> errCountSinceReset e \<Longrightarrow>
     col e = None \<and> (\<exists>err. lastErr e = Some err)"
  by (auto simp: entryOk_def maxErrorsTotal_def)

text \<open>
  C1, amended. \<^verbatim>\<open>After\<close> is strict: the counter is reset when the clock reads more than
  \<open>lastErrTime + waitBeforeReset\<close>, and a reading equal to it still counts as within
  the wait. For an entry whose counter has reached \<open>maxErrorsTotal\<close> (it then holds no
  collection and remembers an error, see \<open>entryOk_tripped\<close>): a call that reads the clock
  at or before \<open>lastErrTime + waitBeforeReset\<close> returns the remembered error and changes
  nothing but the count of clock readings, so it makes no upstream request and the next
  call finds the same entry; a call that reads the clock after it makes at least one
  upstream request, and the counter it leaves is zero after a success and the number of
  requests of this call after a failure, whose error is the one returned: the counter
  and the remembered error were cleared before the first request.
\<close>

theorem cacheGetList_breaker:
  "waitBeforeReset = 3600 * 1000000000 \<and>
   (entries w (resolveCacheKey env magnitude past) = Some e \<and> col e = None \<and>
    maxErrorsTotal \<le> errCountSinceReset e \<and> lastErr e = Some err \<longrightarrow>
      (nowAt env (clockReads w) \<le> lastErrTime e + waitBeforeReset \<longrightarrow>
         cacheGetList env magnitude past w = (Inl err, w\<lparr>clockReads := Suc (clockReads w)\<rparr>)) \<and>
      (lastErrTime e + waitBeforeReset < nowAt env (clockReads w) \<longrightarrow>
         (\<exists>res w' e' k. cacheGetList env magnitude past w = (res, w') \<and>
            entries w' (resolveCacheKey env magnitude past) = Some e' \<and>
            fetchLog w' = fetchLog w @ (magnitude, past) # replicate k (magnitude, past) \<and>
            (case res of
               Inr c \<Rightarrow> errCountSinceReset e' = 0 \<and> lastErr e' = None
             | Inl x \<Rightarrow> errCountSinceReset e' = int (Suc k) \<and> lastErr e' = Some x \<and>
                 attempt env (length (fetchLog w) + k) magnitude past = Inl x))))"
proof -
  let ?key = "resolveCacheKey env magnitude past"
  let ?now = "nowAt env (clockReads w)"
  have wait: "waitBeforeReset = 3600 * 1000000000"
    by (simp add: waitBeforeReset_def Hour_def Minute_def)
  have cooling: "cacheGetList env magnitude past w = (Inl err, w\<lparr>clockReads := Suc (clockReads w)\<rparr>)"
    if e: "entries w ?key = Some e" "col e = None" "maxErrorsTotal \<le> errCountSinceReset e"
      "lastErr e = Some err" and t: "?now \<le> lastErrTime e + waitBeforeReset"
  proof -
    have "tryLoop env magnitude past 0 e (w\<lparr>clockReads := Suc (clockReads w)\<rparr>)
        = (None, e, w\<lparr>clockReads := Suc (clockReads w)\<rparr>)"
      using e(3) by (subst tryLoop_step) simp
    moreover have "(entries w)(?key \<mapsto> e) = entries w"
      using e(1) by (rule map_upd_triv)
    ultimately show ?thesis using e t
      by (simp add: cacheGetList_unfold refresh_unfold)
  qed
  have healed: "\<exists>res w' e' k. cacheGetList env magnitude past w = (res, w') \<and>
            entries w' ?key = Some e' \<and>
            fetchLog w' = fetchLog w @ (magnitude, past) # replicate k (magnitude, past) \<and>
            (case res of
               Inr c \<Rightarrow> errCountSinceReset e' = 0 \<and> lastErr e' = None
             | Inl x \<Rightarrow> errCountSinceReset e' = int (Suc k) \<and> lastErr e' = Some x \<and>
                 attempt env (length (fetchLog w) + k) magnitude past = Inl x)"
    if e: "entries w ?key = Some e" "col e = None" "maxErrorsTotal \<le> errCountSinceReset e"
      and t: "lastErrTime e + waitBeforeReset < ?now"
  proof -
    let ?e1 = "e\<lparr>errCountSinceReset := 0, lastErr := None\<rparr>"
    let ?w1 = "w\<lparr>clockReads := Suc (clockReads w)\<rparr>"
    obtain r e2 w2 where run: "tryLoop env magnitude past 0 ?e1 ?w1 = (r, e2, w2)"
      by (cases "tryLoop env magnitude past 0 ?e1 ?w1") auto
    from tryLoop_first [OF run] obtain k where
      k: "fetchLog w2 = fetchLog w @ (magnitude, past) # replicate k (magnitude, past)"
      by (auto simp: maxTriesForRequest_def maxErrorsTotal_def)
    show ?thesis
    proof (cases r)
      case None
      from tryLoop_None_count [OF run [unfolded None]] k
      obtain x where "errCountSinceReset e2 = int (Suc k)" "lastErr e2 = Some x"
        "attempt env (length (fetchLog w) + k) magnitude past = Inl x"
        by auto
      with e t run None k show ?thesis
        by (simp add: cacheGetList_unfold refresh_unfold)
    next
      case (Some c)
      from tryLoop_Some [OF run [unfolded Some]]
      have "errCountSinceReset e2 = 0" "lastErr e2 = None" by simp_all
      with e t run Some k show ?thesis
        by (simp add: cacheGetList_unfold refresh_unfold)
    qed
  qed
  from wait cooling healed show ?thesis by blast
qed


lemma trippedWorld_call_at_boundary:
  "cacheGetList outageEnv Magnitude_MAGNITUDE_ALL Past_PAST_HOUR trippedWorld =
     (Inl (ErrOther ''bad gateway''), trippedWorld\<lparr>clockReads := 11\<rparr>)"
  by (simp add: run_defs outageEnv_def trippedWorld_def trippedEntry_def coldWorld_eq newEntry_def)

text \<open>
  The claim as stated fails when the clock reads exactly \<open>lastErrTime + waitBeforeReset\<close>:
  the fifth call of the run returns the remembered error, makes no request and leaves
  the counter at ten, although the upstream would have answered.
\<close>

theorem cacheGetList_breaker_counterexample:
  "cacheGetListSeq outageEnv [hourRequest, hourRequest, hourRequest, hourRequest] coldWorld =
     ([Inl (ErrOther ''bad gateway''), Inl (ErrOther ''bad gateway''),
       Inl (ErrOther ''bad gateway''), Inl (ErrOther ''bad gateway'')], trippedWorld) \<and>
   entries trippedWorld (resolveCacheKey outageEnv Magnitude_MAGNITUDE_ALL Past_PAST_HOUR) =
     Some trippedEntry \<and>
   maxErrorsTotal \<le> errCountSinceReset trippedEntry \<and>
   nowAt outageEnv (clockReads trippedWorld) \<ge> lastErrTime trippedEntry + waitBeforeReset \<and>
   cacheGetList outageEnv Magnitude_MAGNITUDE_ALL Past_PAST_HOUR trippedWorld =
     (Inl (ErrOther ''bad gateway''), trippedWorld\<lparr>clockReads := 11\<rparr>) \<and>
   fetchLog (trippedWorld\<lparr>clockReads := 11\<rparr>) = fetchLog trippedWorld \<and>
   entries (trippedWorld\<lparr>clockReads := 11\<rparr>) = entries trippedWorld"
proof -
  have run: "cacheGetListSeq outageEnv [hourRequest, hourRequest, hourRequest, hourRequest] coldWorld =
     ([Inl (ErrOther ''bad gateway''), Inl (ErrOther ''bad gateway''),
       Inl (ErrOther ''bad gateway''), Inl (ErrOther ''bad gateway'')], trippedWorld)"
    by (simp add: hourRequest_def run_defs outageEnv_def failingUpstream_def trippedWorld_def
        trippedEntry_def coldWorld_eq newEntry_def exampleParse_def numeral_eq_Suc)
  have state: "entries trippedWorld (resolveCacheKey outageEnv Magnitude_MAGNITUDE_ALL Past_PAST_HOUR) =
     Some trippedEntry"
    "maxErrorsTotal \<le> errCountSinceReset trippedEntry"
    "nowAt outageEnv (clockReads trippedWorld) \<ge> lastErrTime trippedEntry + waitBeforeReset"
    by (simp_all add: outageEnv_def trippedWorld_def trippedEntry_def maxErrorsTotal_def
        waitBeforeReset_def)
  from run state trippedWorld_call_at_boundary show ?thesis by simp
qed

theorem cacheGetList_breaker_witness:
  "entries trippedWorld (resolveCacheKey outageEnv Magnitude_MAGNITUDE_ALL Past_PAST_HOUR) =
     Some trippedEntry \<and>
   col trippedEntry = None \<and> maxErrorsTotal \<le> errCountSinceReset trippedEntry \<and>
   lastErr trippedEntry = Some (ErrOther ''bad gateway'') \<and>
   nowAt outageEnv (clockReads trippedWorld) \<le> lastErrTime trippedEntry + waitBeforeReset \<and>
   cacheGetList outageEnv Magnitude_MAGNITUDE_ALL Past_PAST_HOUR trippedWorld =
     (Inl (ErrOther ''bad gateway''), trippedWorld\<lparr>clockReads := Suc (clockReads trippedWorld)\<rparr>) \<and>
   entries trippedWorld (resolveCacheKey recoveredEnv Magnitude_MAGNITUDE_ALL Past_PAST_HOUR) =
     Some trippedEntry \<and>
   lastErrTime trippedEntry + waitBeforeReset < nowAt recoveredEnv (clockReads trippedWorld) \<and>
   (\<exists>res w' e' k.
      cacheGetList recoveredEnv Magnitude_MAGNITUDE_ALL Past_PAST_HOUR trippedWorld = (res, w') \<and>
      entries w' (resolveCacheKey recoveredEnv Magnitude_MAGNITUDE_ALL Past_PAST_HOUR) = Some e' \<and>
      fetchLog w' = fetchLog trippedWorld @ hourRequest # replicate k hourRequest \<and>
      (case res of
         Inr c \<Rightarrow> errCountSinceReset e' = 0 \<and> lastErr e' = None
       | Inl x \<Rightarrow> errCountSinceReset e' = int (Suc k) \<and> lastErr e' = Some x \<and>
           attempt recoveredEnv (length (fetchLog trippedWorld) + k) Magnitude_MAGNITUDE_ALL
             Past_PAST_HOUR = Inl x))"
proof -
  have state: "entries trippedWorld (resolveCacheKey outageEnv Magnitude_MAGNITUDE_ALL Past_PAST_HOUR) =
     Some trippedEntry"
    "entries trippedWorld (resolveCacheKey recoveredEnv Magnitude_MAGNITUDE_ALL Past_PAST_HOUR) =
     Some trippedEntry"
    "col trippedEntry = None" "maxErrorsTotal \<le> errCountSinceReset trippedEntry"
    "lastErr trippedEntry = Some (ErrOther ''bad gateway'')"
    by (simp_all add: outageEnv_def recoveredEnv_def trippedWorld_def trippedEntry_def
        maxErrorsTotal_def newEntry_def)
  have times: "nowAt outageEnv (clockReads trippedWorld) \<le> lastErrTime trippedEntry + waitBeforeReset"
    "lastErrTime trippedEntry + waitBeforeReset < nowAt recoveredEnv (clockReads trippedWorld)"
    by (simp_all add: outageEnv_def recoveredEnv_def trippedWorld_def trippedEntry_def
        waitBeforeReset_def)
  note cooling = cacheGetList_breaker [where env = outageEnv and w = trippedWorld
      and magnitude = Magnitude_MAGNITUDE_ALL and past = Past_PAST_HOUR and e = trippedEntry
      and err = "ErrOther ''bad gateway''"]
  note healed = cacheGetList_breaker [where env = recoveredEnv and w = trippedWorld
      and magnitude = Magnitude_MAGNITUDE_ALL and past = Past_PAST_HOUR and e = trippedEntry
      and err = "ErrOther ''bad gateway''"]
  from cooling state times
  have "cacheGetList outageEnv Magnitude_MAGNITUDE_ALL Past_PAST_HOUR trippedWorld =
     (Inl (ErrOther ''bad gateway''), trippedWorld\<lparr>clockReads := Suc (clockReads trippedWorld)\<rparr>)"
    by blast
  moreover from healed state times
  have "\<exists>res w' e' k.
      cacheGetList recoveredEnv Magnitude_MAGNITUDE_ALL Past_PAST_HOUR trippedWorld = (res, w') \<and>
      entries w' (resolveCacheKey recoveredEnv Magnitude_MAGNITUDE_ALL Past_PAST_HOUR) = Some e' \<and>
      fetchLog w' = fetchLog trippedWorld @ hourRequest # replicate k hourRequest \<and>
      (case res of
         Inr c \<Rightarrow> errCountSinceReset e' = 0 \<and> lastErr e' = None
       | Inl x \<Rightarrow> errCountSinceReset e' = int (Suc k) \<and> lastErr e' = Some x \<and>
           attempt recoveredEnv (length (fetchLog trippedWorld) + k) Magnitude_MAGNITUDE_ALL
             Past_PAST_HOUR = Inl x)"
    unfolding hourRequest_def by blast
  ultimately show ?thesis using state times by blast
qed

subsection \<open>Expiry of the cached collection\<close>

lemma refresh_entries_indep:
  "refresh env m p key e (w\<lparr>entries := (entries w)(key \<mapsto> x)\<rparr>) = refresh env m p key e w"
proof -
  let ?es = "(entries w)(key \<mapsto> x)"
  have loop: "(case tryLoop env m p 0 e1 (w1\<lparr>entries := ?es\<rparr>) of
           (res, e2, w2) \<Rightarrow>
             (case res of
                Some c \<Rightarrow> Inr c
              | None \<Rightarrow> (case lastErr e2 of None \<Rightarrow> Inl ErrCacheFailure | Some err \<Rightarrow> Inl err),
              w2\<lparr>entries := (entries w2)(key \<mapsto> e2)\<rparr>))
      = (case tryLoop env m p 0 e1 w1 of
           (res, e2, w2) \<Rightarrow>
             (case res of
                Some c \<Rightarrow> Inr c
              | None \<Rightarrow> (case lastErr e2 of None \<Rightarrow> Inl ErrCacheFailure | Some err \<Rightarrow> Inl err),
              w2\<lparr>entries := (entries w2)(key \<mapsto> e2)\<rparr>))"
    if "entries w1 = entries w" for e1 w1
  proof -
    obtain r e2 w2 where run: "tryLoop env m p 0 e1 w1 = (r, e2, w2)"
      by (cases "tryLoop env m p 0 e1 w1") auto
    from tryLoop_entries [OF run] that have "entries w2 = entries w" by simp
    with run show ?thesis
      by (simp add: tryLoop_entries_indep)
  qed
  have swap: "w\<lparr>entries := ?es, clockReads := n\<rparr> = w\<lparr>clockReads := n\<rparr>\<lparr>entries := ?es\<rparr>" for n
    by simp
  show ?thesis
    by (simp only: refresh_unfold Let_def world.simps swap loop split: if_splits) (simp add: loop)
qed

lemma cacheGetList_expired_as_absent:
  assumes "entries w (resolveCacheKey env m p) = Some e" and "col e = Some c"
    and "expires e < nowAt env (clockReads w)"
  shows "cacheGetList env m p w =
     cacheGetList env m p
       (w\<lparr>clockReads := Suc (clockReads w),
          entries := (entries w)(resolveCacheKey env m p \<mapsto> e\<lparr>col := None\<rparr>)\<rparr>)"
proof -
  let ?key = "resolveCacheKey env m p"
  let ?w1 = "w\<lparr>clockReads := Suc (clockReads w)\<rparr>"
  let ?e0 = "e\<lparr>col := None\<rparr>"
  have same: "refresh env m p ?key ?e0 (?w1\<lparr>entries := (entries ?w1)(?key \<mapsto> ?e0)\<rparr>)
      = refresh env m p ?key ?e0 ?w1"
    by (rule refresh_entries_indep)
  have "cacheGetList env m p (?w1\<lparr>entries := (entries ?w1)(?key \<mapsto> ?e0)\<rparr>)
      = refresh env m p ?key ?e0 (?w1\<lparr>entries := (entries ?w1)(?key \<mapsto> ?e0)\<rparr>)"
    by (subst cacheGetList_unfold) simp
  moreover have "cacheGetList env m p w = refresh env m p ?key ?e0 ?w1"
    using assms by (simp add: cacheGetList_unfold)
  ultimately show ?thesis using same by simp
qed


text \<open>
  C3, amended. \<^verbatim>\<open>After\<close> is strict: a cached collection is served as a hit exactly when
  the clock reads at most \<open>expires\<close>, the reading equal to \<open>expires\<close> included. The hit
  returns the collection, makes no upstream request, and counts one more hit in the
  entry and in its statistics copy. When the clock reads more than \<open>expires\<close> the call
  is the call on the state in which the collection is absent, and for an entry as the
  cache leaves it (\<open>entryOk\<close>) it makes at least one upstream request; a collection it
  returns is the one parsed from the last request of the call.
\<close>

theorem cacheGetList_hit_until_expires:
  "entries w (resolveCacheKey env magnitude past) = Some e \<and> col e = Some c \<longrightarrow>
     (nowAt env (clockReads w) \<le> expires e \<longrightarrow>
        cacheGetList env magnitude past w =
          (Inr c,
           w\<lparr>clockReads := Suc (clockReads w),
             entries := (entries w)(resolveCacheKey env magnitude past \<mapsto>
               e\<lparr>stat := (stat e)\<lparr>hitCount := hitCount (stat e) + 1\<rparr>\<rparr>),
             statCopies := (statCopies w)(resolveCacheKey env magnitude past \<mapsto>
               (stat e)\<lparr>hitCount := hitCount (stat e) + 1\<rparr>)\<rparr>)) \<and>
     (expires e < nowAt env (clockReads w) \<longrightarrow>
        cacheGetList env magnitude past w =
          cacheGetList env magnitude past
            (w\<lparr>clockReads := Suc (clockReads w),
               entries := (entries w)(resolveCacheKey env magnitude past \<mapsto> e\<lparr>col := None\<rparr>)\<rparr>) \<and>
        (entryOk e \<longrightarrow>
           (\<exists>res w' k. cacheGetList env magnitude past w = (res, w') \<and>
              fetchLog w' = fetchLog w @ (magnitude, past) # replicate k (magnitude, past) \<and>
              (\<forall>c'. res = Inr c' \<longrightarrow>
                 attempt env (length (fetchLog w) + k) magnitude past = Inr c'))))"
proof -
  let ?key = "resolveCacheKey env magnitude past"
  have fetches: "\<exists>res w' k. cacheGetList env magnitude past w = (res, w') \<and>
              fetchLog w' = fetchLog w @ (magnitude, past) # replicate k (magnitude, past) \<and>
              (\<forall>c'. res = Inr c' \<longrightarrow>
                 attempt env (length (fetchLog w) + k) magnitude past = Inr c')"
    if e: "entries w ?key = Some e" "col e = Some c" and late: "expires e < nowAt env (clockReads w)"
      and ok: "entryOk e"
  proof -
    let ?e0 = "e\<lparr>col := None\<rparr>"
    let ?w1 = "w\<lparr>clockReads := Suc (clockReads w)\<rparr>"
    from ok e(2) have zero: "errCountSinceReset e = 0"
      by (simp add: entryOk_def)
    obtain r e2 w2 where run: "tryLoop env magnitude past 0 ?e0 ?w1 = (r, e2, w2)"
      by (cases "tryLoop env magnitude past 0 ?e0 ?w1") auto
    from tryLoop_first [OF run] zero obtain k where
      k: "fetchLog w2 = fetchLog w @ (magnitude, past) # replicate k (magnitude, past)"
      by (auto simp: maxTriesForRequest_def maxErrorsTotal_def)
    have call: "cacheGetList env magnitude past w =
        (case r of Some c \<Rightarrow> Inr c
         | None \<Rightarrow> (case lastErr e2 of None \<Rightarrow> Inl ErrCacheFailure | Some err \<Rightarrow> Inl err),
         w2\<lparr>entries := (entries w2)(?key \<mapsto> e2)\<rparr>)"
      using e late zero run by (simp add: cacheGetList_unfold refresh_unfold maxErrorsTotal_def)
    show ?thesis
    proof (cases r)
      case None
      with call k show ?thesis by (auto split: option.splits)
    next
      case (Some c')
      from tryLoop_Some [OF run [unfolded Some]] k
      have "attempt env (length (fetchLog w) + k) magnitude past = Inr c'" by auto
      with call k Some show ?thesis by simp
    qed
  qed
  show ?thesis
    using fetches cacheGetList_expired_as_absent [of w env magnitude past e c]
    by (auto simp: cacheGetList_unfold)
qed

lemma warmWorld_run:
  "cacheGetList expiryEnv Magnitude_MAGNITUDE_ALL Past_PAST_HOUR coldWorld = (Inr quakes, warmWorld)"
  by (simp add: run_defs expiryEnv_def warmWorld_def warmEntry_def quakes_def hourRequest_def
      coldWorld_eq newEntry_def exampleParse_def)

lemma warmWorld_fields:
  "entries warmWorld ''MAGNITUDE_ALL@PAST_HOUR'' = Some warmEntry"
  "clockReads warmWorld = 1" "fetchLog warmWorld = [hourRequest]"
  "col warmEntry = Some quakes" "expires warmEntry = 1000 + 3 * Minute"
  "entryOk warmEntry"
  by (simp_all add: warmWorld_def warmEntry_def entryOk_def newEntry_def maxErrorsTotal_def)

text \<open>
  The claim as stated fails when the clock reads exactly \<open>expires\<close>: the collection
  stored at 1000 with a maximum age of three minutes is still served as a hit at
  \<open>1000 + 3 * Minute\<close>, and no request follows the first.
\<close>

theorem cacheGetList_hit_until_expires_counterexample:
  "cacheGetList expiryEnv Magnitude_MAGNITUDE_ALL Past_PAST_HOUR coldWorld = (Inr quakes, warmWorld) \<and>
   entries warmWorld (resolveCacheKey expiryEnv Magnitude_MAGNITUDE_ALL Past_PAST_HOUR) =
     Some warmEntry \<and>
   col warmEntry = Some quakes \<and>
   expires warmEntry = 1000 + resolveMaxAge Magnitude_MAGNITUDE_ALL Past_PAST_HOUR \<and>
   nowAt expiryEnv (clockReads warmWorld) \<ge> expires warmEntry \<and>
   fst (cacheGetList expiryEnv Magnitude_MAGNITUDE_ALL Past_PAST_HOUR warmWorld) = Inr quakes \<and>
   fetchLog (snd (cacheGetList expiryEnv Magnitude_MAGNITUDE_ALL Past_PAST_HOUR warmWorld)) =
     fetchLog warmWorld"
  using warmWorld_run
  by (simp add: warmWorld_fields expiryEnv_def cacheGetList_unfold resolveMaxAge_def)

theorem cacheGetList_hit_until_expires_witness:
  "entries warmWorld (resolveCacheKey expiryEnv Magnitude_MAGNITUDE_ALL Past_PAST_HOUR) =
     Some warmEntry \<and>
   col warmEntry = Some quakes \<and> entryOk warmEntry \<and>
   nowAt expiryEnv (clockReads warmWorld) \<le> expires warmEntry \<and>
   fst (cacheGetList expiryEnv Magnitude_MAGNITUDE_ALL Past_PAST_HOUR warmWorld) = Inr quakes \<and>
   expires warmEntry < nowAt lateEnv (clockReads warmWorld) \<and>
   (\<exists>k. fetchLog (snd (cacheGetList lateEnv Magnitude_MAGNITUDE_ALL Past_PAST_HOUR warmWorld)) =
      fetchLog warmWorld @ hourRequest # replicate k hourRequest)"
proof -
  have state: "entries warmWorld (resolveCacheKey expiryEnv Magnitude_MAGNITUDE_ALL Past_PAST_HOUR) =
     Some warmEntry"
    "entries warmWorld (resolveCacheKey lateEnv Magnitude_MAGNITUDE_ALL Past_PAST_HOUR) =
     Some warmEntry"
    "col warmEntry = Some quakes" "entryOk warmEntry"
    "nowAt expiryEnv (clockReads warmWorld) \<le> expires warmEntry"
    "expires warmEntry < nowAt lateEnv (clockReads warmWorld)"
    by (simp_all add: warmWorld_fields expiryEnv_def lateEnv_def)
  note hit = cacheGetList_hit_until_expires [where env = expiryEnv and w = warmWorld
      and magnitude = Magnitude_MAGNITUDE_ALL and past = Past_PAST_HOUR and e = warmEntry
      and c = quakes]
  note late = cacheGetList_hit_until_expires [where env = lateEnv and w = warmWorld
      and magnitude = Magnitude_MAGNITUDE_ALL and past = Past_PAST_HOUR and e = warmEntry
      and c = quakes]
  from hit state
  have "fst (cacheGetList expiryEnv Magnitude_MAGNITUDE_ALL Past_PAST_HOUR warmWorld) = Inr quakes"
    by simp
  moreover from late state
  have "\<exists>res w' k. cacheGetList lateEnv Magnitude_MAGNITUDE_ALL Past_PAST_HOUR warmWorld = (res, w') \<and>
      fetchLog w' = fetchLog warmWorld @ hourRequest # replicate k hourRequest"
    unfolding hourRequest_def by blast
  then have "\<exists>k. fetchLog (snd (cacheGetList lateEnv Magnitude_MAGNITUDE_ALL Past_PAST_HOUR warmWorld)) =
      fetchLog warmWorld @ hourRequest # replicate k hourRequest"
    by force
  ultimately show ?thesis using state by blast
qed


text \<open>
  C10. Discarding an expired collection changes the \<open>col\<close> field and nothing else: the
  call on an entry whose collection has expired is the call on the state in which that
  entry has no collection and all its other fields are as they were. In particular,
  when the error counter is at the maximum and the wait has not passed, the call
  returns the remembered error without an upstream request, and the entry it leaves is
  the old one without its collection: counter, remembered error, error time and both
  statistics counters are unchanged. After the call the entry holds no collection, or
  the one parsed from the last request of this call, which is also what the call
  returns; the discarded one is gone.
\<close>

theorem cacheGetList_expiry_changes_col_only:
  "entries w (resolveCacheKey env magnitude past) = Some e \<and> col e = Some c \<and>
   expires e < nowAt env (clockReads w) \<longrightarrow>
     cacheGetList env magnitude past w =
       cacheGetList env magnitude past
         (w\<lparr>clockReads := Suc (clockReads w),
            entries := (entries w)(resolveCacheKey env magnitude past \<mapsto> e\<lparr>col := None\<rparr>)\<rparr>) \<and>
     (maxErrorsTotal \<le> errCountSinceReset e \<and>
      nowAt env (Suc (clockReads w)) \<le> lastErrTime e + waitBeforeReset \<longrightarrow>
        cacheGetList env magnitude past w =
          (Inl (case lastErr e of None \<Rightarrow> ErrCacheFailure | Some err \<Rightarrow> err),
           w\<lparr>clockReads := Suc (Suc (clockReads w)),
              entries := (entries w)(resolveCacheKey env magnitude past \<mapsto> e\<lparr>col := None\<rparr>)\<rparr>)) \<and>
     (\<exists>e'. entries (snd (cacheGetList env magnitude past w)) (resolveCacheKey env magnitude past)
           = Some e' \<and>
        (case fst (cacheGetList env magnitude past w) of
           Inl err \<Rightarrow> col e' = None \<and> stat e' = stat e
         | Inr c' \<Rightarrow> col e' = Some c' \<and>
             (\<exists>n\<ge>length (fetchLog w). attempt env n magnitude past = Inr c')))"
proof -
  let ?key = "resolveCacheKey env magnitude past"
  let ?e0 = "e\<lparr>col := None\<rparr>"
  let ?w1 = "w\<lparr>clockReads := Suc (clockReads w)\<rparr>"
  have tripped: "cacheGetList env magnitude past w =
          (Inl (case lastErr e of None \<Rightarrow> ErrCacheFailure | Some err \<Rightarrow> err),
           w\<lparr>clockReads := Suc (Suc (clockReads w)), entries := (entries w)(?key \<mapsto> ?e0)\<rparr>)"
    if e: "entries w ?key = Some e" "col e = Some c" "expires e < nowAt env (clockReads w)"
      and t: "maxErrorsTotal \<le> errCountSinceReset e"
        "nowAt env (Suc (clockReads w)) \<le> lastErrTime e + waitBeforeReset"
  proof -
    have "tryLoop env magnitude past 0 ?e0 (w\<lparr>clockReads := Suc (Suc (clockReads w))\<rparr>)
        = (None, ?e0, w\<lparr>clockReads := Suc (Suc (clockReads w))\<rparr>)"
      using t(1) by (subst tryLoop_step) simp
    with e t show ?thesis
      by (simp add: cacheGetList_unfold refresh_unfold split: option.splits)
  qed
  have after: "\<exists>e'. entries (snd (cacheGetList env magnitude past w)) ?key = Some e' \<and>
        (case fst (cacheGetList env magnitude past w) of
           Inl err \<Rightarrow> col e' = None \<and> stat e' = stat e
         | Inr c' \<Rightarrow> col e' = Some c' \<and>
             (\<exists>n\<ge>length (fetchLog w). attempt env n magnitude past = Inr c'))"
    if e: "entries w ?key = Some e" "col e = Some c" "expires e < nowAt env (clockReads w)"
  proof -
    obtain res w' where call: "cacheGetList env magnitude past w = (res, w')"
      by (cases "cacheGetList env magnitude past w") auto
    with e have "refresh env magnitude past ?key ?e0 ?w1 = (res, w')"
      by (simp add: cacheGetList_unfold)
    then show ?thesis
    proof (rule refresh_effects)
      fix e' k j
      assume *: "entries w' = (entries ?w1)(?key \<mapsto> e')"
        "fetchLog w' = fetchLog ?w1 @ replicate k (magnitude, past)"
        "\<And>err. res = Inl err \<Longrightarrow>
           statCopies w' = statCopies ?w1 \<and> stat e' = stat ?e0 \<and> col e' = col ?e0 \<and>
           expires e' = expires ?e0 \<and>
           (k < maxTriesForRequest \<longrightarrow> maxErrorsTotal \<le> errCountSinceReset e') \<and>
           err = (case lastErr e' of None \<Rightarrow> ErrCacheFailure | Some x \<Rightarrow> x)"
        "\<And>c. res = Inr c \<Longrightarrow>
           0 < k \<and> col e' = Some c \<and> errCountSinceReset e' = 0 \<and> lastErr e' = None \<and>
           stat e' = (stat ?e0)\<lparr>fetchCount := fetchCount (stat ?e0) + 1\<rparr> \<and>
           statCopies w' = (statCopies ?w1)(resolveCacheKey env magnitude past \<mapsto> stat e') \<and>
           (\<exists>i. clockReads w' = Suc i \<and> expires e' = nowAt env i + resolveMaxAge magnitude past) \<and>
           (\<exists>n. length (fetchLog w') = Suc n \<and> attempt env n magnitude past = Inr c)"
      show ?thesis
      proof (cases res)
        case (Inl err)
        with * call show ?thesis by simp
      next
        case (Inr c')
        from *(4) [OF Inr] obtain n where
          n: "0 < k" "col e' = Some c'" "length (fetchLog w') = Suc n"
             "attempt env n magnitude past = Inr c'"
          by blast
        from n(1,3) *(2) have "length (fetchLog w) \<le> n" by simp
        with n * call Inr show ?thesis by auto
      qed
    qed
  qed
  show ?thesis
    using tripped after cacheGetList_expired_as_absent [of w env magnitude past e c]
    by blast
qed

theorem cacheGetList_expiry_changes_col_only_witness:
  "entries staleTrippedWorld (resolveCacheKey outageEnv Magnitude_MAGNITUDE_ALL Past_PAST_HOUR) =
     Some staleTrippedEntry \<and>
   col staleTrippedEntry = Some quakes \<and>
   expires staleTrippedEntry < nowAt outageEnv (clockReads staleTrippedWorld) \<and>
   maxErrorsTotal \<le> errCountSinceReset staleTrippedEntry \<and>
   nowAt outageEnv (Suc (clockReads staleTrippedWorld)) \<le>
     lastErrTime staleTrippedEntry + waitBeforeReset \<and>
   cacheGetList outageEnv Magnitude_MAGNITUDE_ALL Past_PAST_HOUR staleTrippedWorld =
     (Inl (ErrOther ''bad gateway''), trippedWorld\<lparr>clockReads := 12\<rparr>) \<and>
   staleTrippedEntry\<lparr>col := None\<rparr> = trippedEntry"
proof -
  have state: "entries staleTrippedWorld (resolveCacheKey outageEnv Magnitude_MAGNITUDE_ALL Past_PAST_HOUR) =
     Some staleTrippedEntry"
    "col staleTrippedEntry = Some quakes"
    "expires staleTrippedEntry < nowAt outageEnv (clockReads staleTrippedWorld)"
    "maxErrorsTotal \<le> errCountSinceReset staleTrippedEntry"
    "nowAt outageEnv (Suc (clockReads staleTrippedWorld)) \<le>
       lastErrTime staleTrippedEntry + waitBeforeReset"
    by (simp_all add: staleTrippedWorld_def staleTrippedEntry_def trippedWorld_def trippedEntry_def
        newEntry_def outageEnv_def maxErrorsTotal_def waitBeforeReset_def Hour_def Minute_def)
  have same: "staleTrippedEntry\<lparr>col := None\<rparr> = trippedEntry"
    by (simp add: staleTrippedEntry_def trippedEntry_def newEntry_def)
  have world: "staleTrippedWorld\<lparr>clockReads := Suc (Suc (clockReads staleTrippedWorld)),
      entries := (entries staleTrippedWorld)
        (resolveCacheKey outageEnv Magnitude_MAGNITUDE_ALL Past_PAST_HOUR \<mapsto> trippedEntry)\<rparr>
      = trippedWorld\<lparr>clockReads := 12\<rparr>"
    by (simp add: staleTrippedWorld_def trippedWorld_def outageEnv_def)
  have err: "lastErr staleTrippedEntry = Some (ErrOther ''bad gateway'')"
    by (simp add: staleTrippedEntry_def trippedEntry_def)
  from cacheGetList_expiry_changes_col_only [where env = outageEnv and w = staleTrippedWorld
      and magnitude = Magnitude_MAGNITUDE_ALL and past = Past_PAST_HOUR and e = staleTrippedEntry
      and c = quakes] state
  have "cacheGetList outageEnv Magnitude_MAGNITUDE_ALL Past_PAST_HOUR staleTrippedWorld =
     (Inl (case lastErr staleTrippedEntry of None \<Rightarrow> ErrCacheFailure | Some err \<Rightarrow> err),
      staleTrippedWorld\<lparr>clockReads := Suc (Suc (clockReads staleTrippedWorld)),
        entries := (entries staleTrippedWorld)
          (resolveCacheKey outageEnv Magnitude_MAGNITUDE_ALL Past_PAST_HOUR \<mapsto>
             staleTrippedEntry\<lparr>col := None\<rparr>)\<rparr>)"
    by blast
  then have "cacheGetList outageEnv Magnitude_MAGNITUDE_ALL Past_PAST_HOUR staleTrippedWorld =
     (Inl (ErrOther ''bad gateway''), trippedWorld\<lparr>clockReads := 12\<rparr>)"
    by (simp only: same world err option.case)
  with state same show ?thesis by simp
qed

subsection \<open>The state after initialisation and what every call preserves\<close>

lemma fold_upd_const:
  "fold (\<lambda>a es'. es'(f a \<mapsto> v)) xs es k = Some x \<Longrightarrow> (\<And>k x. es k = Some x \<Longrightarrow> x = v) \<Longrightarrow> x = v"
proof (induction xs arbitrary: es)
  case Nil
  then show ?case by simp
next
  case (Cons a xs)
  have upd: "x' = v" if "(es(f a \<mapsto> v)) k' = Some x'" for k' x'
    using that Cons.prems(2) by (cases "k' = f a") auto
  from Cons.prems(1) have "fold (\<lambda>a es'. es'(f a \<mapsto> v)) xs (es(f a \<mapsto> v)) k = Some x"
    by (simp only: fold_simps o_apply)
  then show ?case
    by (rule Cons.IH) (rule upd)
qed

lemma init_entries:
  "entries (init env magns pasts) key = Some e \<Longrightarrow> e = newEntry"
proof -
  have "fold (\<lambda>magn es. fold (\<lambda>past es'. es'(resolveCacheKey env magn past \<mapsto> newEntry)) pasts es)
          ms es k = Some x \<Longrightarrow> (\<And>k x. es k = Some x \<Longrightarrow> x = newEntry) \<Longrightarrow> x = newEntry"
    for ms es k x
  proof (induction ms arbitrary: es)
    case Nil
    then show ?case by simp
  next
    case (Cons m ms)
    let ?es = "fold (\<lambda>past es'. es'(resolveCacheKey env m past \<mapsto> newEntry)) pasts es"
    have inner: "x' = newEntry" if "?es k' = Some x'" for k' x'
      using that Cons.prems(2) by (rule fold_upd_const)
    from Cons.prems(1)
    have "fold (\<lambda>magn es. fold (\<lambda>past es'. es'(resolveCacheKey env magn past \<mapsto> newEntry)) pasts es)
          ms ?es k = Some x"
      by (simp only: fold_simps o_apply)
    then show ?case
      by (rule Cons.IH) (rule inner)
  qed
  from this [of magns Map.empty key e]
  show "entries (init env magns pasts) key = Some e \<Longrightarrow> e = newEntry"
    by (simp add: init_def)
qed

lemma init_ok:
  "mirrorOkAt (init env magns pasts) key"
  "entries (init env magns pasts) key = Some e \<Longrightarrow> entryOk e"
proof -
  show "mirrorOkAt (init env magns pasts) key"
  proof (cases "entries (init env magns pasts) key")
    case None
    then show ?thesis by (simp add: mirrorOkAt_def) (simp add: init_def)
  next
    case (Some e)
    with init_entries [OF Some] show ?thesis
      by (simp add: mirrorOkAt_def) (simp add: init_def newEntry_def)
  qed
  show "entries (init env magns pasts) key = Some e \<Longrightarrow> entryOk e"
    by (drule init_entries) (simp add: entryOk_def newEntry_def maxErrorsTotal_def)
qed

lemma cacheGetList_entryOk:
  assumes "cacheGetList env m p w = (res, w')"
    and "\<And>e. entries w key = Some e \<Longrightarrow> entryOk e"
    and "entries w' key = Some e'"
  shows "entryOk e'"
proof (cases "key = resolveCacheKey env m p")
  case False
  with cacheGetList_frame [OF assms(1)] have "entries w' key = entries w key" by blast
  with assms show ?thesis by simp
next
  case key: True
  from assms(3) key cacheGetList_frame [OF assms(1)]
  obtain e where e: "entries w key = Some e" by auto
  with assms(2) have ok: "entryOk e" by simp
  have fresh: "entryOk e'" if "refresh env m p key e0 w0 = (res, w')" "entryOk e0" "col e0 = None"
    for e0 w0
  proof -
    define tripped where "tripped = (maxErrorsTotal \<le> errCountSinceReset e0)"
    define e1 where "e1 = (if tripped \<and> lastErrTime e0 + waitBeforeReset < nowAt env (clockReads w0)
                then e0\<lparr>errCountSinceReset := 0, lastErr := None\<rparr> else e0)"
    define w1 where "w1 = (if tripped then w0\<lparr>clockReads := Suc (clockReads w0)\<rparr> else w0)"
    obtain r e2 w2 where run: "tryLoop env m p 0 e1 w1 = (r, e2, w2)"
      by (cases "tryLoop env m p 0 e1 w1") auto
    from that(1) run have "w' = w2\<lparr>entries := (entries w2)(key \<mapsto> e2)\<rparr>"
      by (simp add: refresh_unfold Let_def tripped_def e1_def w1_def)
    with assms(3) have "e' = e2" by simp
    moreover have "entryOk e1" "col e1 = None"
      using that(2,3) by (auto simp: e1_def entryOk_def maxErrorsTotal_def)
    ultimately show ?thesis using tryLoop_entryOk [OF run] by simp
  qed
  show ?thesis
  proof (cases "col e")
    case None
    with e assms(1) key have "refresh env m p key e w = (res, w')"
      by (simp add: cacheGetList_unfold)
    from fresh [OF this ok None] show ?thesis .
  next
    case c: (Some c)
    show ?thesis
    proof (cases "expires e < nowAt env (clockReads w)")
      case True
      with e c assms(1) key have "refresh env m p key (e\<lparr>col := None\<rparr>)
          (w\<lparr>clockReads := Suc (clockReads w)\<rparr>) = (res, w')"
        by (simp add: cacheGetList_unfold)
      moreover have "entryOk (e\<lparr>col := None\<rparr>)" using ok by (simp add: entryOk_def)
      ultimately show ?thesis by (rule fresh) simp
    next
      case False
      with e c assms(1,3) key ok show ?thesis
        by (auto simp: cacheGetList_unfold entryOk_def)
    qed
  qed
qed

lemma cacheGetList_served:
  assumes "cacheGetList env m p w = (Inr c, w')"
  shows "\<exists>e e'. entries w (resolveCacheKey env m p) = Some e \<and>
           entries w' (resolveCacheKey env m p) = Some e' \<and> col e' = Some c \<and>
           statCopies w' (resolveCacheKey env m p) = Some (stat e') \<and>
           (if fetchLog w' = fetchLog w
            then col e = Some c \<and> stat e' = (stat e)\<lparr>hitCount := hitCount (stat e) + 1\<rparr>
            else stat e' = (stat e)\<lparr>fetchCount := fetchCount (stat e) + 1\<rparr>)"
proof -
  let ?key = "resolveCacheKey env m p"
  from assms obtain e where e: "entries w ?key = Some e"
    by (cases "entries w ?key") (auto simp: cacheGetList_unfold)
  have fresh: ?thesis if "refresh env m p ?key e0 w0 = (Inr c, w')" "stat e0 = stat e"
    "fetchLog w0 = fetchLog w" "statCopies w0 = statCopies w" for e0 w0
    using that(1)
  proof (rule refresh_effects)
    fix e' k j
    assume *: "entries w' = (entries w0)(?key \<mapsto> e')"
      "fetchLog w' = fetchLog w0 @ replicate k (m, p)"
      "\<And>c'. Inr c = Inr c' \<Longrightarrow>
           0 < k \<and> col e' = Some c' \<and> errCountSinceReset e' = 0 \<and> lastErr e' = None \<and>
           stat e' = (stat e0)\<lparr>fetchCount := fetchCount (stat e0) + 1\<rparr> \<and>
           statCopies w' = (statCopies w0)(resolveCacheKey env m p \<mapsto> stat e') \<and>
           (\<exists>i. clockReads w' = Suc i \<and> expires e' = nowAt env i + resolveMaxAge m p) \<and>
           (\<exists>n. length (fetchLog w') = Suc n \<and> attempt env n m p = Inr c')"
    from *(3) [OF refl] *(1,2) e that(2,3,4) show ?thesis by auto
  qed
  show ?thesis
  proof (cases "col e")
    case None
    with e assms have "refresh env m p ?key e w = (Inr c, w')"
      by (simp add: cacheGetList_unfold)
    then show ?thesis by (rule fresh) simp_all
  next
    case c: (Some c0)
    show ?thesis
    proof (cases "expires e < nowAt env (clockReads w)")
      case True
      with e c assms have "refresh env m p ?key (e\<lparr>col := None\<rparr>)
          (w\<lparr>clockReads := Suc (clockReads w)\<rparr>) = (Inr c, w')"
        by (simp add: cacheGetList_unfold)
      then show ?thesis by (rule fresh) simp_all
    next
      case False
      with e c assms show ?thesis
        by (auto simp: cacheGetList_unfold)
    qed
  qed
qed


text \<open>Whatever every call of \<open>cacheGetList\<close> preserves, the lookup by identifier preserves.\<close>

lemma cacheGetByIdLoop_invariant:
  assumes step: "\<And>magnitude past w. P w \<Longrightarrow> P (snd (cacheGetList env magnitude past w))"
  shows "P w \<Longrightarrow> P (snd (cacheGetByIdLoop env ident pasts lastE w))"
proof (induction pasts arbitrary: lastE w)
  case Nil
  then show ?case by (simp split: option.splits)
next
  case (Cons past rest)
  show ?case
  proof (cases "past = Past_PAST_UNSPECIFIED")
    case True
    with Cons show ?thesis by simp
  next
    case False
    obtain r w1 where call: "cacheGetList env Magnitude_MAGNITUDE_ALL past w = (r, w1)"
      by (cases "cacheGetList env Magnitude_MAGNITUDE_ALL past w") auto
    with step [OF Cons.prems, of Magnitude_MAGNITUDE_ALL past] have w1: "P w1" by simp
    show ?thesis
    proof (cases r)
      case (Inl err)
      with False call Cons.IH [OF w1] show ?thesis by simp
    next
      case (Inr c)
      with False call Cons.IH [OF w1] w1 show ?thesis
        by (cases "findById ident (Features c)") simp_all
    qed
  qed
qed

lemma cacheGetById_preserves:
  "(\<forall>key e. entries w key = Some e \<longrightarrow> entryOk e) \<Longrightarrow>
     \<forall>key e. entries (snd (cacheGetById env pasts ident w)) key = Some e \<longrightarrow> entryOk e"
  "mirrorOkAt w key \<Longrightarrow> mirrorOkAt (snd (cacheGetById env pasts ident w)) key"
proof -
  have ok: "\<forall>key e. entries (snd (cacheGetList env magnitude past w)) key = Some e \<longrightarrow> entryOk e"
    if "\<forall>key e. entries w key = Some e \<longrightarrow> entryOk e" for magnitude past w
    using cacheGetList_entryOk [of env magnitude past w "fst (cacheGetList env magnitude past w)"
        "snd (cacheGetList env magnitude past w)"] that
    by auto
  have mirror: "mirrorOkAt (snd (cacheGetList env magnitude past w)) key"
    if "mirrorOkAt w key" for magnitude past w
    using cacheGetList_mirrorOkAt [of env magnitude past w "fst (cacheGetList env magnitude past w)"
        "snd (cacheGetList env magnitude past w)" key] that
    by simp
  show "(\<forall>key e. entries w key = Some e \<longrightarrow> entryOk e) \<Longrightarrow>
     \<forall>key e. entries (snd (cacheGetById env pasts ident w)) key = Some e \<longrightarrow> entryOk e"
    unfolding cacheGetById_def
    by (rule cacheGetByIdLoop_invariant
        [where P = "\<lambda>w. \<forall>key e. entries w key = Some e \<longrightarrow> entryOk e"]) (rule ok)
  show "mirrorOkAt w key \<Longrightarrow> mirrorOkAt (snd (cacheGetById env pasts ident w)) key"
    unfolding cacheGetById_def
    by (rule cacheGetByIdLoop_invariant [where P = "\<lambda>w. mirrorOkAt w key"]) (rule mirror)
qed

subsection \<open>The statistics copies\<close>

lemma cacheGetListSeq_unserved:
  "cacheGetListSeq env reqs w = (ress, w') \<Longrightarrow>
   \<forall>i<length reqs. resolveCacheKey env (fst (reqs ! i)) (snd (reqs ! i)) = key \<longrightarrow> isl (ress ! i) \<Longrightarrow>
     statCopies w' key = statCopies w key"
proof (induction reqs arbitrary: w ress)
  case Nil
  then show ?case by simp
next
  case (Cons req reqs)
  obtain m p where req: "req = (m, p)" by (cases req)
  obtain res w1 where first: "cacheGetList env m p w = (res, w1)"
    by (cases "cacheGetList env m p w") auto
  obtain ress1 where rest: "cacheGetListSeq env reqs w1 = (ress1, w')" and ress: "ress = res # ress1"
    using Cons.prems(1) req first by (auto split: prod.splits)
  have "statCopies w1 key = statCopies w key"
  proof (cases "resolveCacheKey env m p = key")
    case True
    with Cons.prems(2) [rule_format, of 0] req ress have "isl res" by simp
    with cacheGetList_frame [OF first] show ?thesis by simp
  next
    case False
    with cacheGetList_frame [OF first] show ?thesis by metis
  qed
  moreover have "\<forall>i<length reqs. resolveCacheKey env (fst (reqs ! i)) (snd (reqs ! i)) = key \<longrightarrow>
      isl (ress1 ! i)"
    using Cons.prems(2) ress by fastforce
  ultimately show ?case using Cons.IH [OF rest] by simp
qed

text \<open>
  C5. A call that returns an error leaves every statistics copy as it was. The copy of
  a key agrees with the counters of its entry after initialisation and after every
  call, so \<open>cacheGetStat\<close> returns the counters of the entry, which only a hit or a
  successful fetch changes. On an entry with zero counters, one call that fetches
  followed by one call that hits gives \<open>fetchCount = 1, hitCount = 1\<close>. After
  initialisation, and after any sequence of calls of which those for the key all
  returned an error, \<open>cacheGetStat\<close> returns the zero value.
\<close>

theorem cacheGetStat_mirrors_served_counters:
  "(cacheGetList env magnitude past w = (Inl err, w') \<longrightarrow> statCopies w' = statCopies w) \<and>
   mirrorOkAt (init env magns pasts) key \<and>
   (mirrorOkAt w key \<longrightarrow> mirrorOkAt (snd (cacheGetList env magnitude past w)) key) \<and>
   (mirrorOkAt w (resolveCacheKey env magnitude past) \<and>
    entries w (resolveCacheKey env magnitude past) = Some e \<longrightarrow>
      cacheGetStat env magnitude past w = stat e) \<and>
   (entries w (resolveCacheKey env magnitude past) = Some e \<and>
    stat e = \<lparr>fetchCount = 0, hitCount = 0\<rparr> \<and>
    cacheGetList env magnitude past w = (Inr c1, w1) \<and> fetchLog w1 \<noteq> fetchLog w \<and>
    cacheGetList env magnitude past w1 = (Inr c2, w2) \<and> fetchLog w2 = fetchLog w1 \<longrightarrow>
      cacheGetStat env magnitude past w1 = \<lparr>fetchCount = 1, hitCount = 0\<rparr> \<and>
      cacheGetStat env magnitude past w2 = \<lparr>fetchCount = 1, hitCount = 1\<rparr>) \<and>
   cacheGetStat env magnitude past (init env magns pasts) = \<lparr>fetchCount = 0, hitCount = 0\<rparr> \<and>
   (statCopies w (resolveCacheKey env magnitude past) = None \<and>
    cacheGetListSeq env reqs w = (ress, w3) \<and>
    (\<forall>i<length reqs.
       resolveCacheKey env (fst (reqs ! i)) (snd (reqs ! i)) = resolveCacheKey env magnitude past \<longrightarrow>
       isl (ress ! i)) \<longrightarrow>
      cacheGetStat env magnitude past w3 = \<lparr>fetchCount = 0, hitCount = 0\<rparr>)"
proof -
  let ?key = "resolveCacheKey env magnitude past"
  have failed: "statCopies w' = statCopies w" if "cacheGetList env magnitude past w = (Inl err, w')"
    using cacheGetList_frame [OF that] by simp
  have kept: "mirrorOkAt (snd (cacheGetList env magnitude past w)) key" if "mirrorOkAt w key"
    using cacheGetList_mirrorOkAt [of env magnitude past w "fst (cacheGetList env magnitude past w)"
        "snd (cacheGetList env magnitude past w)" key] that
    by simp
  have agrees: "cacheGetStat env magnitude past w = stat e"
    if "mirrorOkAt w ?key" "entries w ?key = Some e"
    using that by (auto simp: mirrorOkAt_def cacheGetStat_def split: option.splits)
  have once: "cacheGetStat env magnitude past w1 = \<lparr>fetchCount = 1, hitCount = 0\<rparr> \<and>
      cacheGetStat env magnitude past w2 = \<lparr>fetchCount = 1, hitCount = 1\<rparr>"
    if e: "entries w ?key = Some e" "stat e = \<lparr>fetchCount = 0, hitCount = 0\<rparr>"
      and c1: "cacheGetList env magnitude past w = (Inr c1, w1)" "fetchLog w1 \<noteq> fetchLog w"
      and c2: "cacheGetList env magnitude past w1 = (Inr c2, w2)" "fetchLog w2 = fetchLog w1"
  proof -
    from cacheGetList_served [OF c1(1)] e c1(2) obtain e1 where
      e1: "entries w1 ?key = Some e1" "statCopies w1 ?key = Some \<lparr>fetchCount = 1, hitCount = 0\<rparr>"
        "stat e1 = \<lparr>fetchCount = 1, hitCount = 0\<rparr>"
      by auto
    from cacheGetList_served [OF c2(1)] e1 c2(2)
    have "statCopies w2 ?key = Some \<lparr>fetchCount = 1, hitCount = 1\<rparr>"
      by auto
    with e1 show ?thesis by (simp add: cacheGetStat_def)
  qed
  have fresh: "cacheGetStat env magnitude past (init env magns pasts) = \<lparr>fetchCount = 0, hitCount = 0\<rparr>"
    by (simp add: cacheGetStat_def init_def)
  have unserved: "cacheGetStat env magnitude past w3 = \<lparr>fetchCount = 0, hitCount = 0\<rparr>"
    if "statCopies w ?key = None" "cacheGetListSeq env reqs w = (ress, w3)"
      "\<forall>i<length reqs. resolveCacheKey env (fst (reqs ! i)) (snd (reqs ! i)) = ?key \<longrightarrow> isl (ress ! i)"
    using cacheGetListSeq_unserved [OF that(2,3)] that(1) by (simp add: cacheGetStat_def)
  from failed init_ok(1) kept agrees once fresh unserved show ?thesis
    by blast
qed


theorem cacheGetStat_mirrors_served_counters_witness:
  "fst (cacheGetList failingEnv Magnitude_MAGNITUDE_ALL Past_PAST_HOUR coldWorld) =
     Inl (ErrOther ''bad gateway'') \<and>
   statCopies (snd (cacheGetList failingEnv Magnitude_MAGNITUDE_ALL Past_PAST_HOUR coldWorld)) =
     statCopies coldWorld \<and>
   mirrorOkAt coldWorld ''MAGNITUDE_ALL@PAST_HOUR'' \<and>
   mirrorOkAt warmWorld ''MAGNITUDE_ALL@PAST_HOUR'' \<and>
   entries warmWorld (resolveCacheKey expiryEnv Magnitude_MAGNITUDE_ALL Past_PAST_HOUR) =
     Some warmEntry \<and>
   cacheGetStat expiryEnv Magnitude_MAGNITUDE_ALL Past_PAST_HOUR warmWorld = stat warmEntry \<and>
   stat newEntry = \<lparr>fetchCount = 0, hitCount = 0\<rparr> \<and>
   cacheGetList expiryEnv Magnitude_MAGNITUDE_ALL Past_PAST_HOUR coldWorld = (Inr quakes, warmWorld) \<and>
   fetchLog warmWorld \<noteq> fetchLog coldWorld \<and>
   fst (cacheGetList expiryEnv Magnitude_MAGNITUDE_ALL Past_PAST_HOUR warmWorld) = Inr quakes \<and>
   fetchLog (snd (cacheGetList expiryEnv Magnitude_MAGNITUDE_ALL Past_PAST_HOUR warmWorld)) =
     fetchLog warmWorld \<and>
   cacheGetStat expiryEnv Magnitude_MAGNITUDE_ALL Past_PAST_HOUR
     (snd (cacheGetList expiryEnv Magnitude_MAGNITUDE_ALL Past_PAST_HOUR warmWorld)) =
     \<lparr>fetchCount = 1, hitCount = 1\<rparr> \<and>
   statCopies coldWorld (resolveCacheKey failingEnv Magnitude_MAGNITUDE_ALL Past_PAST_HOUR) = None \<and>
   fst (cacheGetListSeq failingEnv [hourRequest, hourRequest] coldWorld) =
     [Inl (ErrOther ''bad gateway''), Inl (ErrOther ''bad gateway'')] \<and>
   cacheGetStat failingEnv Magnitude_MAGNITUDE_ALL Past_PAST_HOUR
     (snd (cacheGetListSeq failingEnv [hourRequest, hourRequest] coldWorld)) =
     \<lparr>fetchCount = 0, hitCount = 0\<rparr>"
proof -
  let ?m = Magnitude_MAGNITUDE_ALL and ?p = Past_PAST_HOUR
  let ?fail = "cacheGetList failingEnv ?m ?p coldWorld"
  let ?hit = "cacheGetList expiryEnv ?m ?p warmWorld"
  let ?seq = "cacheGetListSeq failingEnv [hourRequest, hourRequest] coldWorld"
  have cold: "coldWorld = init (exampleEnv (\<lambda>k. 0) (\<lambda>k magnitude past. Inl ErrNotFound))
       [Magnitude_MAGNITUDE_ALL] examplePasts"
    by (simp add: coldWorld_def)
  have fail: "fst ?fail = Inl (ErrOther ''bad gateway'')"
    by (simp add: run_defs failingEnv_def failingUpstream_def coldWorld_eq newEntry_def)
  have hit: "fst ?hit = Inr quakes" "fetchLog (snd ?hit) = fetchLog warmWorld"
    by (simp_all add: warmWorld_fields expiryEnv_def cacheGetList_unfold)
  have seq: "fst ?seq = [Inl (ErrOther ''bad gateway''), Inl (ErrOther ''bad gateway'')]"
    by (simp add: hourRequest_def run_defs failingEnv_def failingUpstream_def coldWorld_eq
        newEntry_def split_beta)
  have base: "entries coldWorld (resolveCacheKey expiryEnv ?m ?p) = Some newEntry"
    "stat newEntry = \<lparr>fetchCount = 0, hitCount = 0\<rparr>"
    "entries warmWorld (resolveCacheKey expiryEnv ?m ?p) = Some warmEntry"
    "fetchLog warmWorld \<noteq> fetchLog coldWorld"
    "statCopies coldWorld (resolveCacheKey failingEnv ?m ?p) = None"
    by (simp_all add: expiryEnv_def failingEnv_def coldWorld_eq newEntry_def warmWorld_fields)
  note t0 = cacheGetStat_mirrors_served_counters
      [where env = "exampleEnv (\<lambda>k. 0) (\<lambda>k magnitude past. Inl ErrNotFound)" and magnitude = ?m
      and past = ?p and w = coldWorld and err = ErrNotFound and w' = coldWorld
      and magns = "[Magnitude_MAGNITUDE_ALL]" and pasts = examplePasts
      and key = "''MAGNITUDE_ALL@PAST_HOUR''" and e = newEntry and ?c1.0 = quakes
      and ?w1.0 = coldWorld and ?c2.0 = quakes and ?w2.0 = coldWorld and reqs = "[]"
      and ress = "[]" and ?w3.0 = coldWorld]
  note t1 = cacheGetStat_mirrors_served_counters [where env = failingEnv and magnitude = ?m
      and past = ?p and w = coldWorld and err = "ErrOther ''bad gateway''" and w' = "snd ?fail"
      and magns = "[Magnitude_MAGNITUDE_ALL]" and pasts = examplePasts
      and key = "''MAGNITUDE_ALL@PAST_HOUR''" and e = newEntry and ?c1.0 = quakes
      and ?w1.0 = coldWorld and ?c2.0 = quakes and ?w2.0 = coldWorld
      and reqs = "[hourRequest, hourRequest]" and ress = "fst ?seq" and ?w3.0 = "snd ?seq"]
  note t2 = cacheGetStat_mirrors_served_counters [where env = expiryEnv and magnitude = ?m
      and past = ?p and w = coldWorld and err = ErrNotFound and w' = coldWorld
      and magns = "[Magnitude_MAGNITUDE_ALL]" and pasts = examplePasts
      and key = "''MAGNITUDE_ALL@PAST_HOUR''" and e = newEntry and ?c1.0 = quakes
      and ?w1.0 = warmWorld and ?c2.0 = quakes and ?w2.0 = "snd ?hit" and reqs = "[]"
      and ress = "[]" and ?w3.0 = coldWorld]
  note t3 = cacheGetStat_mirrors_served_counters [where env = expiryEnv and magnitude = ?m
      and past = ?p and w = warmWorld and err = ErrNotFound and w' = coldWorld
      and magns = "[Magnitude_MAGNITUDE_ALL]" and pasts = examplePasts
      and key = "''MAGNITUDE_ALL@PAST_HOUR''" and e = warmEntry and ?c1.0 = quakes
      and ?w1.0 = coldWorld and ?c2.0 = quakes and ?w2.0 = coldWorld and reqs = "[]"
      and ress = "[]" and ?w3.0 = coldWorld]
  have fail': "?fail = (Inl (ErrOther ''bad gateway''), snd ?fail)"
    using fail by (metis prod.collapse)
  have hit': "?hit = (Inr quakes, snd ?hit)"
    using hit(1) by (metis prod.collapse)
  have seq': "?seq = (fst ?seq, snd ?seq)"
    by simp
  have a: "statCopies (snd ?fail) = statCopies coldWorld"
    using t1 fail' by blast
  have b: "mirrorOkAt coldWorld ''MAGNITUDE_ALL@PAST_HOUR''"
    unfolding cold using t0 by blast
  have "mirrorOkAt (snd (cacheGetList expiryEnv ?m ?p coldWorld)) ''MAGNITUDE_ALL@PAST_HOUR''"
    using t2 b by blast
  then have c: "mirrorOkAt warmWorld ''MAGNITUDE_ALL@PAST_HOUR''"
    by (simp add: warmWorld_run)
  have key: "resolveCacheKey expiryEnv ?m ?p = ''MAGNITUDE_ALL@PAST_HOUR''"
    by (simp add: expiryEnv_def)
  have d: "cacheGetStat expiryEnv ?m ?p warmWorld = stat warmEntry"
    using t3 c base(3) unfolding key by blast
  have e: "cacheGetStat expiryEnv ?m ?p (snd ?hit) = \<lparr>fetchCount = 1, hitCount = 1\<rparr>"
    using t2 base(1,2,4) warmWorld_run hit' hit(2) by blast
  have all_failed: "\<forall>i<length [hourRequest, hourRequest].
      resolveCacheKey failingEnv (fst ([hourRequest, hourRequest] ! i))
        (snd ([hourRequest, hourRequest] ! i)) = resolveCacheKey failingEnv ?m ?p \<longrightarrow>
      isl (fst ?seq ! i)"
    by (simp add: seq less_Suc_eq numeral_2_eq_2)
  have f: "cacheGetStat failingEnv ?m ?p (snd ?seq) = \<lparr>fetchCount = 0, hitCount = 0\<rparr>"
    using t1 base(5) all_failed seq' by blast
  from fail a b c base d warmWorld_run hit e seq f show ?thesis by simp
qed

subsection \<open>The lookup by identifier\<close>

lemma findById_filter:
  "findById ident eqs = (case filter (\<lambda>eq. Id eq = ident) eqs of [] \<Rightarrow> None | eq # rest \<Rightarrow> Some eq)"
  by (induction eqs) auto

lemma head_append:
  "(case xs @ ys of [] \<Rightarrow> None | y # zs \<Rightarrow> Some y) =
     (case xs of [] \<Rightarrow> (case ys of [] \<Rightarrow> None | y # zs \<Rightarrow> Some y) | x # zs \<Rightarrow> Some x)"
  by (cases xs) simp_all

lemma firstMatch_simps [simp]:
  "firstMatch ident [] = None"
  "firstMatch ident ((past, Inl err) # calls) = firstMatch ident calls"
  "firstMatch ident ((past, Inr c) # calls) =
     (case findById ident (Features c) of Some eq \<Rightarrow> Some eq | None \<Rightarrow> firstMatch ident calls)"
proof -
  show "firstMatch ident [] = None" "firstMatch ident ((past, Inl err) # calls) = firstMatch ident calls"
    by (simp_all add: firstMatch_def)
  show "firstMatch ident ((past, Inr c) # calls) =
     (case findById ident (Features c) of Some eq \<Rightarrow> Some eq | None \<Rightarrow> firstMatch ident calls)"
    by (cases "filter (\<lambda>eq. Id eq = ident) (Features c)")
      (simp_all add: firstMatch_def findById_filter head_append)
qed

lemma head_snoc:
  "(case xs @ [x] of [] \<Rightarrow> None | y # ys \<Rightarrow> Some y) =
     (case (case xs of [] \<Rightarrow> None | y # ys \<Rightarrow> Some y) of None \<Rightarrow> Some x | Some y \<Rightarrow> Some y)"
  by (cases xs) simp_all

lemma latestError_simps [simp]:
  "latestError [] = None"
  "latestError ((past, Inl err) # calls) =
     (case latestError calls of Some err' \<Rightarrow> Some err' | None \<Rightarrow> Some err)"
  "latestError ((past, Inr c) # calls) = latestError calls"
proof -
  show "latestError [] = None" "latestError ((past, Inr c) # calls) = latestError calls"
    by (simp_all add: latestError_def)
  show "latestError ((past, Inl err) # calls) =
     (case latestError calls of Some err' \<Rightarrow> Some err' | None \<Rightarrow> Some err)"
    by (simp add: latestError_def head_snoc)
qed

text \<open>The loop with a remembered error is the answer from the calls, the remembered error last.\<close>

lemma cacheGetByIdLoop_windowCalls:
  "cacheGetByIdLoop env ident pasts lastE w =
     (case windowCalls env ident pasts w of
        (calls, w') \<Rightarrow>
          (case firstMatch ident calls of
             Some eq \<Rightarrow> Inr eq
           | None \<Rightarrow>
               (case latestError calls of
                  Some err \<Rightarrow> Inl err
                | None \<Rightarrow> (case lastE of Some err \<Rightarrow> Inl err | None \<Rightarrow> Inl ErrNotFound)),
           w'))"
proof (induction pasts arbitrary: lastE w)
  case Nil
  then show ?case by (simp split: option.splits)
next
  case (Cons past rest)
  show ?case
  proof (cases "past = Past_PAST_UNSPECIFIED")
    case True
    then show ?thesis by (simp add: Cons.IH)
  next
    case False
    obtain res w1 where call: "cacheGetList env Magnitude_MAGNITUDE_ALL past w = (res, w1)"
      by (cases "cacheGetList env Magnitude_MAGNITUDE_ALL past w") auto
    obtain calls w2 where rest: "windowCalls env ident rest w1 = (calls, w2)"
      by (cases "windowCalls env ident rest w1") auto
    show ?thesis
    proof (cases res)
      case (Inl err)
      with False call rest Cons.IH [of "Some err" w1] show ?thesis
        by (simp split: option.splits cong: option.case_cong)
    next
      case (Inr c)
      show ?thesis
      proof (cases "findById ident (Features c)")
        case None
        then have "filter (\<lambda>eq. Id eq = ident) (Features c) = []"
          by (simp add: findById_filter split: list.splits)
        with None False call rest Inr Cons.IH [of lastE w1] show ?thesis
          by (simp cong: option.case_cong)
      next
        case (Some eq)
        then have "filter (\<lambda>eq. Id eq = ident) (Features c) \<noteq> []"
          by (auto simp: findById_filter)
        with Some False call Inr show ?thesis
          by (simp cong: option.case_cong)
      qed
    qed
  qed
qed

lemma windowCalls_shape:
  "windowCalls env ident pasts w = (calls, w') \<Longrightarrow>
     (\<exists>rest. filter (\<lambda>past. past \<noteq> Past_PAST_UNSPECIFIED) pasts = map fst calls @ rest \<and>
        (rest \<noteq> [] \<longrightarrow> calls \<noteq> [] \<and> matchesIn ident (snd (last calls)) \<noteq> [])) \<and>
     (\<forall>call\<in>set (butlast calls). matchesIn ident (snd call) = []) \<and>
     (\<exists>reqs. fetchLog w' = fetchLog w @ reqs \<and>
        (\<forall>req\<in>set reqs. fst req = Magnitude_MAGNITUDE_ALL \<and> snd req \<in> fst ` set calls))"
proof (induction pasts arbitrary: w calls w')
  case Nil
  then show ?case by simp
next
  case (Cons past pasts)
  show ?case
  proof (cases "past = Past_PAST_UNSPECIFIED")
    case True
    with Cons.prems Cons.IH [of w calls w'] show ?thesis by simp
  next
    case False
    obtain res w1 where call: "cacheGetList env Magnitude_MAGNITUDE_ALL past w = (res, w1)"
      by (cases "cacheGetList env Magnitude_MAGNITUDE_ALL past w") auto
    from cacheGetList_frame [OF call] obtain k where
      log: "fetchLog w1 = fetchLog w @ replicate k (Magnitude_MAGNITUDE_ALL, past)"
      by blast
    show ?thesis
    proof (cases "matchesIn ident res = []")
      case found: False
      with False call Cons.prems have "calls = [(past, res)]" "w' = w1" by simp_all
      with found False log show ?thesis by auto
    next
      case True
      obtain calls1 w2 where rest: "windowCalls env ident pasts w1 = (calls1, w2)"
        by (cases "windowCalls env ident pasts w1") auto
      with True False call Cons.prems have calls: "calls = (past, res) # calls1" "w' = w2"
        by simp_all
      note ih = Cons.IH [OF rest]
      from ih obtain rest' where
        r: "filter (\<lambda>past. past \<noteq> Past_PAST_UNSPECIFIED) pasts = map fst calls1 @ rest'"
           "rest' \<noteq> [] \<longrightarrow> calls1 \<noteq> [] \<and> matchesIn ident (snd (last calls1)) \<noteq> []"
        by blast
      from ih obtain reqs1 where
        q: "fetchLog w2 = fetchLog w1 @ reqs1"
           "\<forall>req\<in>set reqs1. fst req = Magnitude_MAGNITUDE_ALL \<and> snd req \<in> fst ` set calls1"
        by blast
      have shape: "\<exists>rest. filter (\<lambda>past. past \<noteq> Past_PAST_UNSPECIFIED) (past # pasts) = map fst calls @ rest \<and>
        (rest \<noteq> [] \<longrightarrow> calls \<noteq> [] \<and> matchesIn ident (snd (last calls)) \<noteq> [])"
        using r False calls by (intro exI [where x = rest']) auto
      have nomatch: "\<forall>call\<in>set (butlast calls). matchesIn ident (snd call) = []"
        using ih True calls by auto
      have reqs: "\<exists>reqs. fetchLog w' = fetchLog w @ reqs \<and>
        (\<forall>req\<in>set reqs. fst req = Magnitude_MAGNITUDE_ALL \<and> snd req \<in> fst ` set calls)"
        using q log calls
        by (intro exI [where x = "replicate k (Magnitude_MAGNITUDE_ALL, past) @ reqs1"]) auto
      from shape nomatch reqs show ?thesis by blast
    qed
  qed
qed


lemma firstMatch_None:
  "(firstMatch ident calls = None) = (\<forall>call\<in>set calls. matchesIn ident (snd call) = [])"
proof -
  define ms where "ms = concat (map (\<lambda>call. matchesIn ident (snd call)) calls)"
  have "(ms = []) = (\<forall>call\<in>set calls. matchesIn ident (snd call) = [])"
    by (simp add: ms_def)
  moreover have "(firstMatch ident calls = None) = (ms = [])"
    by (cases ms) (simp_all add: firstMatch_def ms_def [symmetric])
  ultimately show ?thesis by simp
qed

lemma firstMatch_last:
  assumes "\<forall>call\<in>set pre. matchesIn ident (snd call) = []"
    and "findById ident (Features c) = Some eq"
  shows "firstMatch ident (pre @ [(past, Inr c)]) = Some eq"
proof -
  from assms(1) have "concat (map (\<lambda>call. matchesIn ident (snd call)) pre) = []" by simp
  moreover from assms(2) obtain rest where "filter (\<lambda>eq. Id eq = ident) (Features c) = eq # rest"
    by (cases "filter (\<lambda>eq. Id eq = ident) (Features c)") (simp_all add: findById_filter)
  ultimately show ?thesis
    by (simp add: firstMatch_def del: concat_eq_Nil_conv)
qed

lemma latestError_last:
  assumes "\<forall>call\<in>set post. \<not> isl (snd call)"
  shows "latestError (pre @ (past, Inl err) # post) = Some err"
proof -
  have "errorsOf res = []" if "\<not> isl res" for res :: "error + EarthquakeCollection"
    using that by (cases res) simp_all
  with assms have "concat (map (\<lambda>call. errorsOf (snd call)) post) = []" by simp
  then show ?thesis by (simp add: latestError_def del: concat_eq_Nil_conv)
qed

lemma latestError_None:
  assumes "\<forall>call\<in>set calls. \<not> isl (snd call)"
  shows "latestError calls = None"
proof -
  have "errorsOf res = []" if "\<not> isl res" for res :: "error + EarthquakeCollection"
    using that by (cases res) simp_all
  with assms have "concat (map (\<lambda>call. errorsOf (snd call)) calls) = []" by simp
  then show ?thesis by (simp add: latestError_def del: concat_eq_Nil_conv)
qed

text \<open>
  C4. \<open>cacheGetById\<close> returns the answer the specification words, from the calls the
  specification words: it calls \<open>cacheGetList\<close> at \<^verbatim>\<open>MAGNITUDE_ALL\<close> for the windows of
  the enumeration other than \<^verbatim>\<open>PAST_UNSPECIFIED\<close>, in the order of the enumeration,
  and stops after the first call whose collection contains the identifier, so that
  windows are left out only after a match, no call before the last one matched, and
  every upstream request of the run is for \<^verbatim>\<open>MAGNITUDE_ALL\<close> and a window that was
  called. A match in the last call is returned; without a match the error of the last
  call that failed is returned; when every call succeeded without a match the result is
  \<open>ErrNotFound\<close>.
\<close>

theorem cacheGetById_answer:
  "windowCalls env ident pasts w = (calls, w') \<longrightarrow>
     cacheGetById env pasts ident w = (byIdAnswer ident calls, w') \<and>
     (\<exists>rest. filter (\<lambda>past. past \<noteq> Past_PAST_UNSPECIFIED) pasts = map fst calls @ rest \<and>
        (rest \<noteq> [] \<longrightarrow> calls \<noteq> [] \<and> matchesIn ident (snd (last calls)) \<noteq> [])) \<and>
     (\<forall>call\<in>set (butlast calls). matchesIn ident (snd call) = []) \<and>
     (\<exists>reqs. fetchLog w' = fetchLog w @ reqs \<and>
        (\<forall>req\<in>set reqs. fst req = Magnitude_MAGNITUDE_ALL \<and> snd req \<in> fst ` set calls)) \<and>
     (\<forall>pre past c eq. calls = pre @ [(past, Inr c)] \<and> findById ident (Features c) = Some eq \<longrightarrow>
        fst (cacheGetById env pasts ident w) = Inr eq) \<and>
     (\<forall>pre past err post.
        (\<forall>call\<in>set calls. matchesIn ident (snd call) = []) \<and>
        calls = pre @ (past, Inl err) # post \<and> (\<forall>call\<in>set post. \<not> isl (snd call)) \<longrightarrow>
        fst (cacheGetById env pasts ident w) = Inl err) \<and>
     ((\<forall>call\<in>set calls. \<not> isl (snd call) \<and> matchesIn ident (snd call) = []) \<longrightarrow>
        fst (cacheGetById env pasts ident w) = Inl ErrNotFound)"
proof
  assume calls: "windowCalls env ident pasts w = (calls, w')"
  note shape = windowCalls_shape [OF calls]
  have answer: "cacheGetById env pasts ident w = (byIdAnswer ident calls, w')"
    using calls
    by (simp add: cacheGetById_def cacheGetByIdLoop_windowCalls byIdAnswer_def
        cong: option.case_cong)
  have found: "fst (cacheGetById env pasts ident w) = Inr eq"
    if "calls = pre @ [(past, Inr c)]" "findById ident (Features c) = Some eq" for pre past c eq
  proof -
    from shape that(1) have "\<forall>call\<in>set pre. matchesIn ident (snd call) = []" by simp
    from firstMatch_last [OF this that(2)] that(1) show ?thesis
      by (simp add: answer byIdAnswer_def)
  qed
  have failed: "fst (cacheGetById env pasts ident w) = Inl err"
    if "\<forall>call\<in>set calls. matchesIn ident (snd call) = []"
      "calls = pre @ (past, Inl err) # post" "\<forall>call\<in>set post. \<not> isl (snd call)"
    for pre past err post
  proof -
    from that(1) have "firstMatch ident calls = None" by (simp add: firstMatch_None)
    with latestError_last [OF that(3), of pre past err] that(2) show ?thesis
      by (simp add: answer byIdAnswer_def)
  qed
  have missing: "fst (cacheGetById env pasts ident w) = Inl ErrNotFound"
    if "\<forall>call\<in>set calls. \<not> isl (snd call) \<and> matchesIn ident (snd call) = []"
  proof -
    from that have "firstMatch ident calls = None" "latestError calls = None"
      by (simp_all add: firstMatch_None latestError_None)
    then show ?thesis by (simp add: answer byIdAnswer_def)
  qed
  from answer shape found failed missing
  show "cacheGetById env pasts ident w = (byIdAnswer ident calls, w') \<and>
     (\<exists>rest. filter (\<lambda>past. past \<noteq> Past_PAST_UNSPECIFIED) pasts = map fst calls @ rest \<and>
        (rest \<noteq> [] \<longrightarrow> calls \<noteq> [] \<and> matchesIn ident (snd (last calls)) \<noteq> [])) \<and>
     (\<forall>call\<in>set (butlast calls). matchesIn ident (snd call) = []) \<and>
     (\<exists>reqs. fetchLog w' = fetchLog w @ reqs \<and>
        (\<forall>req\<in>set reqs. fst req = Magnitude_MAGNITUDE_ALL \<and> snd req \<in> fst ` set calls)) \<and>
     (\<forall>pre past c eq. calls = pre @ [(past, Inr c)] \<and> findById ident (Features c) = Some eq \<longrightarrow>
        fst (cacheGetById env pasts ident w) = Inr eq) \<and>
     (\<forall>pre past err post.
        (\<forall>call\<in>set calls. matchesIn ident (snd call) = []) \<and>
        calls = pre @ (past, Inl err) # post \<and> (\<forall>call\<in>set post. \<not> isl (snd call)) \<longrightarrow>
        fst (cacheGetById env pasts ident w) = Inl err) \<and>
     ((\<forall>call\<in>set calls. \<not> isl (snd call) \<and> matchesIn ident (snd call) = []) \<longrightarrow>
        fst (cacheGetById env pasts ident w) = Inl ErrNotFound)"
    by blast
qed

lemma windowsEnv_calls:
  "fst (windowCalls windowsEnv ''eq42'' examplePasts coldWorld) =
     [(Past_PAST_HOUR, Inr (oneQuake ''eq1'')), (Past_PAST_DAY, Inr (oneQuake ''eq2'')),
      (Past_PAST_7DAYS, Inr (oneQuake ''eq42''))]"
  "fetchLog (snd (windowCalls windowsEnv ''eq42'' examplePasts coldWorld)) =
     [(Magnitude_MAGNITUDE_ALL, Past_PAST_HOUR), (Magnitude_MAGNITUDE_ALL, Past_PAST_DAY),
      (Magnitude_MAGNITUDE_ALL, Past_PAST_7DAYS)]"
  by (simp_all add: examplePasts_def windowsEnv_def run_defs coldWorld_eq newEntry_def
      exampleParse_def oneQuake_def)

lemma flakyEnv_calls:
  "fst (windowCalls flakyEnv ''eq42'' examplePasts coldWorld) =
     [(Past_PAST_HOUR, Inl (ErrOther ''hour feed down'')), (Past_PAST_DAY, Inr (oneQuake ''eq1'')),
      (Past_PAST_7DAYS, Inr (oneQuake ''eq2'')),
      (Past_PAST_30DAYS, Inl (ErrOther ''month feed down''))]"
  by (simp add: examplePasts_def flakyEnv_def run_defs coldWorld_eq newEntry_def
      exampleParse_def oneQuake_def)

lemma healthyEnv_calls:
  "fst (windowCalls healthyEnv ''eq7'' examplePasts coldWorld) =
     [(Past_PAST_HOUR, Inr (oneQuake ''eq42'')), (Past_PAST_DAY, Inr (oneQuake ''eq42'')),
      (Past_PAST_7DAYS, Inr (oneQuake ''eq42'')), (Past_PAST_30DAYS, Inr (oneQuake ''eq42''))]"
  by (simp add: examplePasts_def healthyEnv_def run_defs coldWorld_eq newEntry_def
      exampleParse_def oneQuake_def)


theorem cacheGetById_answer_witness:
  "fst (windowCalls windowsEnv ''eq42'' examplePasts coldWorld) =
     [(Past_PAST_HOUR, Inr (oneQuake ''eq1'')), (Past_PAST_DAY, Inr (oneQuake ''eq2''))] @
     [(Past_PAST_7DAYS, Inr (oneQuake ''eq42''))] \<and>
   findById ''eq42'' (Features (oneQuake ''eq42'')) = Some \<lparr>Id = ''eq42'', Details = ''M 4.2''\<rparr> \<and>
   fst (cacheGetById windowsEnv examplePasts ''eq42'' coldWorld) =
     Inr \<lparr>Id = ''eq42'', Details = ''M 4.2''\<rparr> \<and>
   fetchLog (snd (cacheGetById windowsEnv examplePasts ''eq42'' coldWorld)) =
     [(Magnitude_MAGNITUDE_ALL, Past_PAST_HOUR), (Magnitude_MAGNITUDE_ALL, Past_PAST_DAY),
      (Magnitude_MAGNITUDE_ALL, Past_PAST_7DAYS)] \<and>
   fst (windowCalls flakyEnv ''eq42'' examplePasts coldWorld) =
     [(Past_PAST_HOUR, Inl (ErrOther ''hour feed down'')), (Past_PAST_DAY, Inr (oneQuake ''eq1'')),
      (Past_PAST_7DAYS, Inr (oneQuake ''eq2''))] @
     (Past_PAST_30DAYS, Inl (ErrOther ''month feed down'')) # [] \<and>
   fst (cacheGetById flakyEnv examplePasts ''eq42'' coldWorld) = Inl (ErrOther ''month feed down'') \<and>
   fst (windowCalls healthyEnv ''eq7'' examplePasts coldWorld) =
     [(Past_PAST_HOUR, Inr (oneQuake ''eq42'')), (Past_PAST_DAY, Inr (oneQuake ''eq42'')),
      (Past_PAST_7DAYS, Inr (oneQuake ''eq42'')), (Past_PAST_30DAYS, Inr (oneQuake ''eq42''))] \<and>
   fst (cacheGetById healthyEnv examplePasts ''eq7'' coldWorld) = Inl ErrNotFound"
proof -
  let ?found = "windowCalls windowsEnv ''eq42'' examplePasts coldWorld"
  let ?failed = "windowCalls flakyEnv ''eq42'' examplePasts coldWorld"
  let ?missing = "windowCalls healthyEnv ''eq7'' examplePasts coldWorld"
  have quake: "findById ''eq42'' (Features (oneQuake ''eq42'')) = Some \<lparr>Id = ''eq42'', Details = ''M 4.2''\<rparr>"
    by (simp add: oneQuake_def)
  have pairs: "?found = (fst ?found, snd ?found)" "?failed = (fst ?failed, snd ?failed)"
    "?missing = (fst ?missing, snd ?missing)"
    by simp_all
  note found = cacheGetById_answer [where env = windowsEnv and ident = "''eq42''"
      and pasts = examplePasts and w = coldWorld and calls = "fst ?found" and w' = "snd ?found",
      THEN mp, OF pairs(1)]
  note failed = cacheGetById_answer [where env = flakyEnv and ident = "''eq42''"
      and pasts = examplePasts and w = coldWorld and calls = "fst ?failed" and w' = "snd ?failed",
      THEN mp, OF pairs(2)]
  note missing = cacheGetById_answer [where env = healthyEnv and ident = "''eq7''"
      and pasts = examplePasts and w = coldWorld and calls = "fst ?missing" and w' = "snd ?missing",
      THEN mp, OF pairs(3)]
  note c1 = found [THEN conjunct1]
  note c5 = found [THEN conjunct2, THEN conjunct2, THEN conjunct2, THEN conjunct2, THEN conjunct1,
      rule_format, of "[(Past_PAST_HOUR, Inr (oneQuake ''eq1'')), (Past_PAST_DAY, Inr (oneQuake ''eq2''))]"
      Past_PAST_7DAYS "oneQuake ''eq42''" "\<lparr>Id = ''eq42'', Details = ''M 4.2''\<rparr>"]
  note c6 = failed [THEN conjunct2, THEN conjunct2, THEN conjunct2, THEN conjunct2, THEN conjunct2,
      THEN conjunct1, rule_format, of "[(Past_PAST_HOUR, Inl (ErrOther ''hour feed down'')),
      (Past_PAST_DAY, Inr (oneQuake ''eq1'')), (Past_PAST_7DAYS, Inr (oneQuake ''eq2''))]"
      Past_PAST_30DAYS "ErrOther ''month feed down''" "[]"]
  note c7 = missing [THEN conjunct2, THEN conjunct2, THEN conjunct2, THEN conjunct2, THEN conjunct2,
      THEN conjunct2]
  have a: "fst (cacheGetById windowsEnv examplePasts ''eq42'' coldWorld) =
      Inr \<lparr>Id = ''eq42'', Details = ''M 4.2''\<rparr>"
    using c5 quake by (simp add: windowsEnv_calls)
  have a': "fetchLog (snd (cacheGetById windowsEnv examplePasts ''eq42'' coldWorld)) =
     [(Magnitude_MAGNITUDE_ALL, Past_PAST_HOUR), (Magnitude_MAGNITUDE_ALL, Past_PAST_DAY),
      (Magnitude_MAGNITUDE_ALL, Past_PAST_7DAYS)]"
    by (simp add: c1 windowsEnv_calls)
  have b: "fst (cacheGetById flakyEnv examplePasts ''eq42'' coldWorld) = Inl (ErrOther ''month feed down'')"
    using c6 by (simp add: flakyEnv_calls oneQuake_def)
  have c: "fst (cacheGetById healthyEnv examplePasts ''eq7'' coldWorld) = Inl ErrNotFound"
    using c7 by (simp add: healthyEnv_calls oneQuake_def)
  from quake a a' b c windowsEnv_calls flakyEnv_calls healthyEnv_calls show ?thesis by simp
qed

subsection \<open>The order of the windows\<close>

text \<open>
  C8. The comment at the head of the loop of \<^verbatim>\<open>cacheGetById\<close> names the windows in
  the order hour, day, 7days, 30days, narrowest first, and the loop is to take them in
  that order on every run. It ranges over \<^verbatim>\<open>pb.Past_value\<close>, a Go map, so the order is
  whatever the \<^verbatim>\<open>range\<close> yields: the five enum values widest window first are such an
  order. On the same state and the same collaborators, the run in the documented
  order asks the upstream for the hour, the day, the seven-day and the thirty-day
  window and reports the failure of the thirty-day window; the run in the other order
  asks for the thirty-day window first and reports the failure of the hour window.
\<close>

theorem cacheGetById_range_order_decides:
  "set (rev examplePasts) = set examplePasts \<and> distinct (rev examplePasts) \<and>
   fst (cacheGetById flakyEnv examplePasts ''eq42'' coldWorld) = Inl (ErrOther ''month feed down'') \<and>
   map snd (fetchLog (snd (cacheGetById flakyEnv examplePasts ''eq42'' coldWorld))) =
     [Past_PAST_HOUR, Past_PAST_HOUR, Past_PAST_HOUR, Past_PAST_DAY, Past_PAST_7DAYS,
      Past_PAST_30DAYS, Past_PAST_30DAYS, Past_PAST_30DAYS] \<and>
   fst (cacheGetById flakyEnv (rev examplePasts) ''eq42'' coldWorld) = Inl (ErrOther ''hour feed down'') \<and>
   map snd (fetchLog (snd (cacheGetById flakyEnv (rev examplePasts) ''eq42'' coldWorld))) =
     [Past_PAST_30DAYS, Past_PAST_30DAYS, Past_PAST_30DAYS, Past_PAST_7DAYS, Past_PAST_DAY,
      Past_PAST_HOUR, Past_PAST_HOUR, Past_PAST_HOUR]"
proof -
  have "set (rev examplePasts) = set examplePasts"
    by simp
  moreover have "distinct (rev examplePasts)"
    by (simp add: examplePasts_def)
  moreover have "fst (cacheGetById flakyEnv examplePasts ''eq42'' coldWorld) =
      Inl (ErrOther ''month feed down'')"
    "map snd (fetchLog (snd (cacheGetById flakyEnv examplePasts ''eq42'' coldWorld))) =
     [Past_PAST_HOUR, Past_PAST_HOUR, Past_PAST_HOUR, Past_PAST_DAY, Past_PAST_7DAYS,
      Past_PAST_30DAYS, Past_PAST_30DAYS, Past_PAST_30DAYS]"
    by (simp_all add: cacheGetById_def examplePasts_def flakyEnv_def run_defs coldWorld_eq
        newEntry_def exampleParse_def)
  moreover have "fst (cacheGetById flakyEnv (rev examplePasts) ''eq42'' coldWorld) =
      Inl (ErrOther ''hour feed down'')"
    "map snd (fetchLog (snd (cacheGetById flakyEnv (rev examplePasts) ''eq42'' coldWorld))) =
     [Past_PAST_30DAYS, Past_PAST_30DAYS, Past_PAST_30DAYS, Past_PAST_7DAYS, Past_PAST_DAY,
      Past_PAST_HOUR, Past_PAST_HOUR, Past_PAST_HOUR]"
    by (simp_all add: cacheGetById_def examplePasts_def flakyEnv_def run_defs coldWorld_eq
        newEntry_def exampleParse_def)
  ultimately show ?thesis by simp
qed

subsection \<open>Concurrent calls\<close>

lemma settle_fields:
  "fetchLog (settle env key e w) = fetchLog w"
  "\<exists>e'. entries (settle env key e w) = (entries w)(key \<mapsto> e') \<and> col e' = col e \<and>
     expires e' = expires e"
  by (auto simp add: settle_def now_def Let_def)

lemma step_cases
  [case_names stay enter missing lock hit miss call giveup fail success]:
  obtains
    (stay) "step env t s = s"
  | (enter) magnitude past where
      "t < length (goroutines s)" "goroutines s ! t = Called magnitude past"
      "entries (globals s) (resolveCacheKey env magnitude past) \<noteq> None"
      "step env t s = s\<lparr>goroutines := (goroutines s)[t := AtLock magnitude past]\<rparr>"
  | (missing) magnitude past where
      "t < length (goroutines s)" "goroutines s ! t = Called magnitude past"
      "entries (globals s) (resolveCacheKey env magnitude past) = None"
      "step env t s = s\<lparr>goroutines := (goroutines s)[t := Returned (Inl ErrCacheFailure)]\<rparr>"
  | (lock) magnitude past where
      "t < length (goroutines s)" "goroutines s ! t = AtLock magnitude past"
      "\<not> mu s (resolveCacheKey env magnitude past)"
      "step env t s = s\<lparr>mu := (mu s)(resolveCacheKey env magnitude past := True),
         goroutines := (goroutines s)[t := Locked magnitude past]\<rparr>"
  | (hit) magnitude past e c e' w' where
      "t < length (goroutines s)" "goroutines s ! t = Locked magnitude past"
      "entries (globals s) (resolveCacheKey env magnitude past) = Some e"
      "col e = Some c" "nowAt env (clockReads (globals s)) \<le> expires e"
      "step env t s = s\<lparr>globals := w', mu := (mu s)(resolveCacheKey env magnitude past := False),
         goroutines := (goroutines s)[t := Returned (Inr c)]\<rparr>"
      "fetchLog w' = fetchLog (globals s)"
      "entries w' = (entries (globals s))(resolveCacheKey env magnitude past \<mapsto> e')"
      "col e' = col e" "expires e' = expires e"
  | (miss) magnitude past e e' w' where
      "t < length (goroutines s)" "goroutines s ! t = Locked magnitude past"
      "entries (globals s) (resolveCacheKey env magnitude past) = Some e"
      "col e = None \<or> expires e < nowAt env (clockReads (globals s))"
      "step env t s = s\<lparr>globals := w',
         goroutines := (goroutines s)[t := AtLoop magnitude past 0]\<rparr>"
      "fetchLog w' = fetchLog (globals s)"
      "entries w' = (entries (globals s))(resolveCacheKey env magnitude past \<mapsto> e')"
      "col e' = None"
  | (call) magnitude past round e where
      "t < length (goroutines s)" "goroutines s ! t = AtLoop magnitude past round"
      "entries (globals s) (resolveCacheKey env magnitude past) = Some e"
      "round < maxTriesForRequest" "errCountSinceReset e < maxErrorsTotal"
      "step env t s =
         s\<lparr>globals := (globals s)\<lparr>fetchLog := fetchLog (globals s) @ [(magnitude, past)]\<rparr>,
           goroutines := (goroutines s)
             [t := InFetch magnitude past round (length (fetchLog (globals s)))]\<rparr>"
  | (giveup) magnitude past round e err where
      "t < length (goroutines s)" "goroutines s ! t = AtLoop magnitude past round"
      "entries (globals s) (resolveCacheKey env magnitude past) = Some e"
      "\<not> (round < maxTriesForRequest \<and> errCountSinceReset e < maxErrorsTotal)"
      "step env t s = s\<lparr>mu := (mu s)(resolveCacheKey env magnitude past := False),
         goroutines := (goroutines s)[t := Returned (Inl err)]\<rparr>"
  | (fail) magnitude past round k e err e' w' where
      "t < length (goroutines s)" "goroutines s ! t = InFetch magnitude past round k"
      "entries (globals s) (resolveCacheKey env magnitude past) = Some e"
      "attempt env k magnitude past = Inl err"
      "step env t s = s\<lparr>globals := w',
         goroutines := (goroutines s)[t := AtLoop magnitude past (Suc round)]\<rparr>"
      "fetchLog w' = fetchLog (globals s)"
      "entries w' = (entries (globals s))(resolveCacheKey env magnitude past \<mapsto> e')"
      "col e' = col e" "expires e' = expires e"
  | (success) magnitude past round k e c e' w' where
      "t < length (goroutines s)" "goroutines s ! t = InFetch magnitude past round k"
      "entries (globals s) (resolveCacheKey env magnitude past) = Some e"
      "attempt env k magnitude past = Inr c"
      "step env t s = s\<lparr>globals := w', mu := (mu s)(resolveCacheKey env magnitude past := False),
         goroutines := (goroutines s)[t := Returned (Inr c)]\<rparr>"
      "fetchLog w' = fetchLog (globals s)"
      "entries w' = (entries (globals s))(resolveCacheKey env magnitude past \<mapsto> e')"
      "col e' = Some c"
      "expires e' = nowAt env (clockReads (globals s)) + resolveMaxAge magnitude past"
proof (cases "t < length (goroutines s)")
  case False
  then show ?thesis using stay by (simp add: step_def)
next
  case True
  show ?thesis
  proof (cases "goroutines s ! t")
    case (Called magnitude past)
    show ?thesis
      using True Called enter [of magnitude past] missing [of magnitude past]
      by (cases "entries (globals s) (resolveCacheKey env magnitude past)")
         (simp_all add: step_def)
  next
    case (AtLock magnitude past)
    show ?thesis
      using True AtLock lock [of magnitude past] stay
      by (cases "mu s (resolveCacheKey env magnitude past)") (simp_all add: step_def)
  next
    case (Locked magnitude past)
    define key where "key = resolveCacheKey env magnitude past"
    show ?thesis
    proof (cases "entries (globals s) key")
      case None
      then show ?thesis using True Locked stay by (simp add: step_def key_def)
    next
      case (Some e)
      show ?thesis
      proof (cases "col e = None \<or> expires e < nowAt env (clockReads (globals s))")
        case refetch: True
        define w1 where "w1 = (if col e = None then globals s else snd (now env (globals s)))"
        define e0 where "e0 = (if col e = None then e else e\<lparr>col := None\<rparr>)"
        have st: "step env t s = s\<lparr>globals := settle env key e0 w1,
            goroutines := (goroutines s)[t := AtLoop magnitude past 0]\<rparr>"
          using True Locked Some refetch
          by (cases "col e") (simp_all add: step_def key_def w1_def e0_def now_def Let_def)
        have w1: "fetchLog w1 = fetchLog (globals s)" "entries w1 = entries (globals s)"
          by (simp_all add: w1_def now_def)
        have e0: "col e0 = None"
          by (simp add: e0_def)
        obtain e' where e': "entries (settle env key e0 w1) = (entries w1)(key \<mapsto> e')"
          "col e' = None"
          using settle_fields(2) [of env key e0 w1] e0 by auto
        show ?thesis
          using miss [of magnitude past e "settle env key e0 w1" e']
            True Locked Some refetch st e' w1
          by (simp add: key_def settle_fields)
      next
        case fresh: False
        then obtain c where c: "col e = Some c" by auto
        define e1 where "e1 = e\<lparr>stat := (stat e)\<lparr>hitCount := hitCount (stat e) + 1\<rparr>\<rparr>"
        define w' where "w' = cacheSetStat env magnitude past (stat e1)
          ((snd (now env (globals s)))\<lparr>entries := (entries (snd (now env (globals s))))(key \<mapsto> e1)\<rparr>)"
        have st: "step env t s = s\<lparr>globals := w', mu := (mu s)(key := False),
            goroutines := (goroutines s)[t := Returned (Inr c)]\<rparr>"
          using True Locked Some fresh c
          by (auto simp add: step_def key_def w'_def e1_def now_def Let_def)
        show ?thesis
          using hit [of magnitude past e c w' e1] True Locked Some fresh c st
          by (simp add: key_def w'_def e1_def cacheSetStat_def now_def)
      qed
    qed
  next
    case (AtLoop magnitude past round)
    define key where "key = resolveCacheKey env magnitude past"
    show ?thesis
    proof (cases "entries (globals s) key")
      case None
      then show ?thesis using True AtLoop stay by (simp add: step_def key_def)
    next
      case (Some e)
      show ?thesis
      proof (cases "round < maxTriesForRequest \<and> errCountSinceReset e < maxErrorsTotal")
        case go: True
        show ?thesis
          using call [of magnitude past round e] True AtLoop Some go
          by (simp add: step_def key_def fetch_def Let_def)
      next
        case stop: False
        show ?thesis
          using giveup [of magnitude past round e
              "case lastErr e of None \<Rightarrow> ErrCacheFailure | Some err \<Rightarrow> err"]
            True AtLoop Some stop
          by (cases "lastErr e") (auto simp add: step_def key_def Let_def)
      qed
    qed
  next
    case (InFetch magnitude past round k)
    define key where "key = resolveCacheKey env magnitude past"
    show ?thesis
    proof (cases "entries (globals s) key")
      case None
      then show ?thesis using True InFetch stay by (simp add: step_def key_def)
    next
      case (Some e)
      show ?thesis
      proof (cases "attempt env k magnitude past")
        case (Inl err)
        define e' where "e' = fst (recordError env err e (globals s))"
        define w' where "w' = (snd (recordError env err e (globals s)))
          \<lparr>entries := (entries (snd (recordError env err e (globals s))))(key \<mapsto> e')\<rparr>"
        have st: "step env t s = s\<lparr>globals := w',
            goroutines := (goroutines s)[t := AtLoop magnitude past (Suc round)]\<rparr>"
          using True InFetch Some Inl
          by (auto simp add: step_def key_def w'_def e'_def attempt_def Let_def split_beta
              split: sum.splits)
        show ?thesis
          using fail [of magnitude past round k e err w' e'] True InFetch Some Inl st
          by (simp add: key_def w'_def e'_def recordError_def now_def)
      next
        case (Inr c)
        define e' where "e' = fetched (nowAt env (clockReads (globals s)))
          (resolveMaxAge magnitude past) c e"
        define w' where "w' = (snd (now env (cacheSetStat env magnitude past
            (stat (e\<lparr>col := Some c, stat := (stat e)\<lparr>fetchCount := fetchCount (stat e) + 1\<rparr>\<rparr>))
            (globals s))))\<lparr>entries := (entries (globals s))(key \<mapsto> e')\<rparr>"
        have st: "step env t s = s\<lparr>globals := w', mu := (mu s)(key := False),
            goroutines := (goroutines s)[t := Returned (Inr c)]\<rparr>"
          using True InFetch Some Inr
          by (auto simp add: step_def key_def w'_def e'_def attempt_def Let_def fetched_def
              now_def cacheSetStat_def split: sum.splits)
        show ?thesis
          using success [of magnitude past round k e c w' e'] True InFetch Some Inr st
          by (simp add: key_def w'_def e'_def now_def cacheSetStat_def fetched_def)
      qed
    qed
  next
    case (Returned res)
    then show ?thesis using True stay by (simp add: step_def)
  qed
qed

lemma exclusive_step:
  assumes "exclusive env s"
  shows "exclusive env (step env t s)"
proof (cases rule: step_cases [of env t s])
  case stay
  then show ?thesis using assms by simp
next
  case (enter magnitude past)
  then show ?thesis
    using assms by (auto simp add: exclusive_def nth_list_update split: if_splits)
next
  case (missing magnitude past)
  then show ?thesis
    using assms by (auto simp add: exclusive_def nth_list_update split: if_splits)
next
  case (lock magnitude past)
  then show ?thesis
    using assms by (auto simp add: exclusive_def nth_list_update split: if_splits)
next
  case (hit magnitude past e c e' w')
  then show ?thesis
    using assms by (auto simp add: exclusive_def nth_list_update split: if_splits)
next
  case (miss magnitude past e e' w')
  then show ?thesis
    using assms by (auto simp add: exclusive_def nth_list_update split: if_splits)
next
  case (call magnitude past round e)
  then show ?thesis
    using assms by (auto simp add: exclusive_def nth_list_update split: if_splits)
next
  case (giveup magnitude past round e err)
  then show ?thesis
    using assms by (auto simp add: exclusive_def nth_list_update split: if_splits)
next
  case (fail magnitude past round k e err e' w')
  then show ?thesis
    using assms by (auto simp add: exclusive_def nth_list_update split: if_splits)
next
  case (success magnitude past round k e c e' w')
  then show ?thesis
    using assms by (auto simp add: exclusive_def nth_list_update split: if_splits)
qed

lemma sum_list_map_update:
  fixes f :: "'a \<Rightarrow> nat"
  shows "t < length xs \<Longrightarrow>
    sum_list (map f (xs[t := x])) + f (xs ! t) = sum_list (map f xs) + f x"
proof (induction xs arbitrary: t)
  case Nil
  then show ?case by simp
next
  case (Cons y ys)
  then show ?case by (cases t) auto
qed

lemma within_update:
  assumes "within n s" and "t < length (goroutines s)"
    and "spent g \<le> maxTriesForRequest"
    and "length (fetchLog w') + spent (goroutines s ! t) \<le> length (fetchLog (globals s)) + spent g"
    and "globals s' = w'" and "goroutines s' = (goroutines s)[t := g]"
  shows "within n s'"
proof -
  have "sum_list (map spent ((goroutines s)[t := g])) + spent (goroutines s ! t) =
      sum_list (map spent (goroutines s)) + spent g"
    using assms(2) by (rule sum_list_map_update)
  then show ?thesis
    using assms by (auto simp add: within_def nth_list_update)
qed

lemma within_step:
  assumes "within n s"
  shows "within n (step env t s)"
proof -
  have le: "t < length (goroutines s) \<Longrightarrow> spent (goroutines s ! t) \<le> maxTriesForRequest"
    using assms by (simp add: within_def)
  show ?thesis
  proof (cases rule: step_cases [of env t s])
    case stay
    then show ?thesis using assms by simp
  next
    case (enter magnitude past)
    then show ?thesis
      by (intro within_update [OF assms, of t "AtLock magnitude past"]) simp_all
  next
    case (missing magnitude past)
    then show ?thesis
      by (intro within_update [OF assms, of t "Returned (Inl ErrCacheFailure)"]) simp_all
  next
    case (lock magnitude past)
    then show ?thesis
      by (intro within_update [OF assms, of t "Locked magnitude past"]) simp_all
  next
    case (hit magnitude past e c e' w')
    then show ?thesis
      by (intro within_update [OF assms, of t "Returned (Inr c)"]) simp_all
  next
    case (miss magnitude past e e' w')
    then show ?thesis
      by (intro within_update [OF assms, of t "AtLoop magnitude past 0"]) simp_all
  next
    case (call magnitude past round e)
    then show ?thesis
      by (intro within_update [OF assms, of t
            "InFetch magnitude past round (length (fetchLog (globals s)))"]) simp_all
  next
    case (giveup magnitude past round e err)
    then show ?thesis
      using le by (intro within_update [OF assms, of t "Returned (Inl err)"]) simp_all
  next
    case (fail magnitude past round k e err e' w')
    then show ?thesis
      using le
      by (intro within_update [OF assms, of t "AtLoop magnitude past (Suc round)"]) simp_all
  next
    case (success magnitude past round k e c e' w')
    then show ?thesis
      using le by (intro within_update [OF assms, of t "Returned (Inr c)"]) simp_all
  qed
qed

lemma allOn_step:
  assumes "allOn magnitude past s"
  shows "allOn magnitude past (step env t s)"
  using assms
  by (cases rule: step_cases [of env t s])
     (auto simp add: allOn_def nth_list_update split: if_splits)

lemma holder_alone:
  assumes ex: "exclusive env s" and on: "allOn magnitude past s"
    and t: "t < length (goroutines s)"
      "holds env (resolveCacheKey env magnitude past) (goroutines s ! t)"
    and t': "t' < length (goroutines s)" "inLoop (goroutines s ! t')"
  shows "t' = t"
proof -
  have "requestOf (goroutines s ! t') = Some (magnitude, past)"
    using on t' by (cases "goroutines s ! t'") (auto simp add: allOn_def)
  then have "holds env (resolveCacheKey env magnitude past) (goroutines s ! t')"
    using t'(2) by (cases "goroutines s ! t'") auto
  then show ?thesis
    using ex t t'(1) by (auto simp add: exclusive_def)
qed

text \<open>A step that leaves the rounds spent, the history and the collection as they are.\<close>

lemma calm_quiet:
  assumes calm: "calm env magnitude past n s"
    and t: "t < length (goroutines s)"
    and g: "goroutines s' = (goroutines s)[t := g]"
      "inLoop g = inLoop (goroutines s ! t)"
      "inLoop g \<Longrightarrow> spent g = spent (goroutines s ! t)"
    and w: "length (fetchLog (globals s')) = length (fetchLog (globals s))"
      "\<And>e. entries (globals s) (resolveCacheKey env magnitude past) = Some e \<Longrightarrow>
         \<exists>e'. entries (globals s') (resolveCacheKey env magnitude past) = Some e' \<and>
           col e' = col e \<and> expires e' = expires e"
  shows "calm env magnitude past n s'"
proof -
  have len: "length (goroutines s') = length (goroutines s)"
    using g(1) by simp
  have same: "inLoop (goroutines s' ! u) = inLoop (goroutines s ! u)"
    if "u < length (goroutines s)" for u
    using that g(1,2) t by (cases "u = t") simp_all
  have same_rounds: "spent (goroutines s' ! u) = spent (goroutines s ! u)"
    if "u < length (goroutines s)" "inLoop (goroutines s ! u)" for u
    using that g t by (cases "u = t") simp_all
  from calm obtain e where e: "entries (globals s) (resolveCacheKey env magnitude past) = Some e"
    and ph: "if col e = None then
           (\<forall>t<length (goroutines s). inLoop (goroutines s ! t) \<longrightarrow>
              length (fetchLog (globals s)) = n + spent (goroutines s ! t)) \<and>
           ((\<forall>t<length (goroutines s). \<not> inLoop (goroutines s ! t)) \<longrightarrow>
              length (fetchLog (globals s)) = n)
         else
           (\<exists>j. expires e = nowAt env j + resolveMaxAge magnitude past) \<and>
           (\<forall>t<length (goroutines s). \<not> inLoop (goroutines s ! t)) \<and>
           length (fetchLog (globals s)) \<le> n + maxTriesForRequest"
    unfolding calm_def by blast
  from w(2) [OF e] obtain e' where e': "entries (globals s') (resolveCacheKey env magnitude past) = Some e'"
    "col e' = col e" "expires e' = expires e"
    by blast
  show ?thesis
    unfolding calm_def using e' ph
    by (simp add: len w(1) same same_rounds cong: conj_cong imp_cong)
qed

lemma coalesced_step:
  assumes co: "coalesced env magnitude past n s"
    and ex: "exclusive env s" and on: "allOn magnitude past s" and wi: "within n' s"
    and clock: "\<And>i j. nowAt env i \<le> nowAt env j + resolveMaxAge magnitude past"
  shows "coalesced env magnitude past n (step env t s)"
proof (cases "\<exists>t<length (goroutines s). \<exists>err. goroutines s ! t = Returned (Inl err)")
  case True
  then obtain u err where u: "u < length (goroutines s)" "goroutines s ! u = Returned (Inl err)"
    by auto
  have "u < length (goroutines (step env t s)) \<and> goroutines (step env t s) ! u = Returned (Inl err)"
    using u by (cases rule: step_cases [of env t s]) (auto simp add: nth_list_update)
  then show ?thesis
    unfolding coalesced_def by blast
next
  case False
  define key where "key = resolveCacheKey env magnitude past"
  from co False have calm: "calm env magnitude past n s"
    by (simp add: coalesced_def)
  then obtain e0 where e0: "entries (globals s) key = Some e0"
    and ph: "if col e0 = None then
           (\<forall>t<length (goroutines s). inLoop (goroutines s ! t) \<longrightarrow>
              length (fetchLog (globals s)) = n + spent (goroutines s ! t)) \<and>
           ((\<forall>t<length (goroutines s). \<not> inLoop (goroutines s ! t)) \<longrightarrow>
              length (fetchLog (globals s)) = n)
         else
           (\<exists>j. expires e0 = nowAt env j + resolveMaxAge magnitude past) \<and>
           (\<forall>t<length (goroutines s). \<not> inLoop (goroutines s ! t)) \<and>
           length (fetchLog (globals s)) \<le> n + maxTriesForRequest"
    unfolding calm_def key_def by blast
  have cold: "(\<forall>t<length (goroutines s). inLoop (goroutines s ! t) \<longrightarrow>
          length (fetchLog (globals s)) = n + spent (goroutines s ! t)) \<and>
      ((\<forall>t<length (goroutines s). \<not> inLoop (goroutines s ! t)) \<longrightarrow>
          length (fetchLog (globals s)) = n)" if "col e0 = None"
    using ph that by simp
  have served: "(\<exists>j. expires e0 = nowAt env j + resolveMaxAge magnitude past) \<and>
      (\<forall>t<length (goroutines s). \<not> inLoop (goroutines s ! t)) \<and>
      length (fetchLog (globals s)) \<le> n + maxTriesForRequest" if "col e0 \<noteq> None"
    using ph that by simp
  have le: "t < length (goroutines s) \<Longrightarrow> spent (goroutines s ! t) \<le> maxTriesForRequest"
    using wi by (simp add: within_def)
  have mine: "m = magnitude \<and> p = past"
    if "t < length (goroutines s)" "requestOf (goroutines s ! t) = Some (m, p)" for m p
    using on that by (auto simp add: allOn_def)
  have alone: "u = t"
    if "t < length (goroutines s)" "holds env key (goroutines s ! t)"
      "u < length (goroutines s)" "inLoop (goroutines s ! u)" for u
    using holder_alone [OF ex on] that unfolding key_def by blast
  show ?thesis
  proof (cases rule: step_cases [of env t s])
    case stay
    then show ?thesis using co by simp
  next
    case (enter m p)
    have "calm env magnitude past n (step env t s)"
      using calm enter(1)
      by (rule calm_quiet [where g = "AtLock m p"]) (simp_all add: enter)
    then show ?thesis by (simp add: coalesced_def)
  next
    case (missing m p)
    then have "goroutines (step env t s) ! t = Returned (Inl ErrCacheFailure)"
      "t < length (goroutines (step env t s))"
      by simp_all
    then show ?thesis
      unfolding coalesced_def by blast
  next
    case (lock m p)
    have "calm env magnitude past n (step env t s)"
      using calm lock(1)
      by (rule calm_quiet [where g = "Locked m p"]) (simp_all add: lock)
    then show ?thesis by (simp add: coalesced_def)
  next
    case (hit m p e c e' w')
    have mp: "m = magnitude" "p = past"
      using mine [of m p] hit(1,2) by simp_all
    have "calm env magnitude past n (step env t s)"
      using calm hit(1)
      by (rule calm_quiet [where g = "Returned (Inr c)"]) (use hit mp in simp_all)
    then show ?thesis by (simp add: coalesced_def)
  next
    case (miss m p e e' w')
    have mp: "m = magnitude" "p = past"
      using mine [of m p] miss(1,2) by simp_all
    have e: "e = e0"
      using miss(3) e0 mp by (simp add: key_def)
    have cold0: "col e0 = None"
    proof (rule ccontr)
      assume "col e0 \<noteq> None"
      with served obtain j where "expires e0 = nowAt env j + resolveMaxAge magnitude past"
        by blast
      with clock [of "clockReads (globals s)" j] miss(4) e \<open>col e0 \<noteq> None\<close>
      show False by simp
    qed
    have hold: "holds env key (goroutines s ! t)"
      using miss(2) mp by (simp add: key_def)
    have none: "\<not> inLoop (goroutines s ! u)" if "u < length (goroutines s)" for u
      using alone [OF miss(1) hold that] miss(2) by auto
    then have n: "length (fetchLog (globals s)) = n"
      using cold [OF cold0] by simp
    have "calm env magnitude past n (step env t s)"
      unfolding calm_def
      using miss mp n none
      by (auto simp add: nth_list_update)
    then show ?thesis by (simp add: coalesced_def)
  next
    case (call m p round e)
    have mp: "m = magnitude" "p = past"
      using mine [of m p] call(1,2) by simp_all
    have hold: "holds env key (goroutines s ! t)" and loop: "inLoop (goroutines s ! t)"
      using call(2) mp by (simp_all add: key_def)
    have cold0: "col e0 = None"
      using served call(1) loop by blast
    have others: "\<not> inLoop (goroutines s ! u)" if "u < length (goroutines s)" "u \<noteq> t" for u
      using alone [OF call(1) hold that(1)] that(2) by auto
    have n: "length (fetchLog (globals s)) = n + round"
      using cold [OF cold0] call(1,2) by auto
    have "calm env magnitude past n (step env t s)"
      unfolding calm_def
      using call mp n others e0 cold0
      by (auto simp add: nth_list_update key_def)
    then show ?thesis by (simp add: coalesced_def)
  next
    case (giveup m p round e err)
    then have "goroutines (step env t s) ! t = Returned (Inl err)"
      "t < length (goroutines (step env t s))"
      by simp_all
    then show ?thesis
      unfolding coalesced_def by blast
  next
    case (fail m p round k e err e' w')
    have mp: "m = magnitude" "p = past"
      using mine [of m p] fail(1,2) by simp_all
    have "calm env magnitude past n (step env t s)"
      using calm fail(1)
      by (rule calm_quiet [where g = "AtLoop m p (Suc round)"]) (use fail mp in simp_all)
    then show ?thesis by (simp add: coalesced_def)
  next
    case (success m p round k e c e' w')
    have mp: "m = magnitude" "p = past"
      using mine [of m p] success(1,2) by simp_all
    have hold: "holds env key (goroutines s ! t)" and loop: "inLoop (goroutines s ! t)"
      using success(2) mp by (simp_all add: key_def)
    have cold0: "col e0 = None"
      using served success(1) loop by blast
    have others: "\<not> inLoop (goroutines s ! u)" if "u < length (goroutines s)" "u \<noteq> t" for u
      using alone [OF success(1) hold that(1)] that(2) by auto
    have n: "length (fetchLog (globals s)) = n + Suc round"
      using cold [OF cold0] success(1,2) by auto
    have "Suc round \<le> maxTriesForRequest"
      using le [OF success(1)] success(2) by simp
    then have "calm env magnitude past n (step env t s)"
      unfolding calm_def
      using success mp n others
      by (auto simp add: nth_list_update key_def)
    then show ?thesis by (simp add: coalesced_def)
  qed
qed

lemma run_append:
  "run env (sched @ sched') s = run env sched' (run env sched s)"
  by (induction sched arbitrary: s) simp_all

lemma step_AtLoop:
  assumes "t < length (goroutines s)" "goroutines s ! t = AtLoop m p r"
    "entries (globals s) (resolveCacheKey env m p) = Some e"
  shows "step env t s =
    (if r < maxTriesForRequest \<and> errCountSinceReset e < maxErrorsTotal then
       s\<lparr>globals := (globals s)\<lparr>fetchLog := fetchLog (globals s) @ [(m, p)]\<rparr>,
         goroutines := (goroutines s)[t := InFetch m p r (length (fetchLog (globals s)))]\<rparr>
     else
       s\<lparr>mu := (mu s)(resolveCacheKey env m p := False),
         goroutines := (goroutines s)
           [t := Returned (case lastErr e of None \<Rightarrow> Inl ErrCacheFailure | Some err \<Rightarrow> Inl err)]\<rparr>)"
  using assms by (simp add: step_def Let_def fetch_def)

lemma step_InFetch:
  assumes "t < length (goroutines s)" "goroutines s ! t = InFetch m p r k"
    "entries (globals s) (resolveCacheKey env m p) = Some e"
  shows "step env t s =
    (case attempt env k m p of
       Inl err \<Rightarrow>
         s\<lparr>globals := (globals s)\<lparr>clockReads := Suc (clockReads (globals s)),
             entries := (entries (globals s))(resolveCacheKey env m p \<mapsto>
               failed (nowAt env (clockReads (globals s))) err e)\<rparr>,
           goroutines := (goroutines s)[t := AtLoop m p (Suc r)]\<rparr>
     | Inr c \<Rightarrow>
         s\<lparr>globals := (globals s)\<lparr>clockReads := Suc (clockReads (globals s)),
             statCopies := (statCopies (globals s))(resolveCacheKey env m p \<mapsto>
               (stat e)\<lparr>fetchCount := fetchCount (stat e) + 1\<rparr>),
             entries := (entries (globals s))(resolveCacheKey env m p \<mapsto>
               fetched (nowAt env (clockReads (globals s))) (resolveMaxAge m p) c e)\<rparr>,
           mu := (mu s)(resolveCacheKey env m p := False),
           goroutines := (goroutines s)[t := Returned (Inr c)]\<rparr>)"
  using assms
  by (simp add: step_def Let_def attempt_def recordError_def now_def cacheSetStat_def
      failed_def fetched_def split: sum.splits)

text \<open>
  A goroutine at the head of the retry loop that takes all the steps by itself goes
  through the rounds of \<open>tryLoop\<close> and returns.
\<close>

lemma loop_solo:
  assumes "t < length (goroutines s)" "goroutines s ! t = AtLoop m p r"
    "globals s = w\<lparr>entries := es\<rparr>" "es (resolveCacheKey env m p) = Some e"
    "tryLoop env m p r e w = (res, e2, w2)"
  shows "\<exists>n. run env (replicate n t) s =
    s\<lparr>globals := w2\<lparr>entries := es(resolveCacheKey env m p \<mapsto> e2)\<rparr>,
      mu := (mu s)(resolveCacheKey env m p := False),
      goroutines := (goroutines s)
        [t := Returned (case res of
             Some c \<Rightarrow> Inr c
           | None \<Rightarrow> (case lastErr e2 of None \<Rightarrow> Inl ErrCacheFailure | Some err \<Rightarrow> Inl err))]\<rparr>"
  using assms
proof (induction r e w arbitrary: s es rule: tryLoop_rounds [where env = env and m = m and p = p])
  case (stop r e w)
  let ?key = "resolveCacheKey env m p"
  from stop.hyps stop.prems(5) have out: "res = None" "e2 = e" "w2 = w"
    by (subst (asm) tryLoop_step, simp)+
  have "entries (globals s) ?key = Some e"
    using stop.prems(3,4) by simp
  from step_AtLoop [OF stop.prems(1,2) this] stop.hyps
  have "run env (replicate 1 t) s =
      s\<lparr>mu := (mu s)(?key := False),
        goroutines := (goroutines s)
          [t := Returned (case lastErr e of None \<Rightarrow> Inl ErrCacheFailure | Some err \<Rightarrow> Inl err)]\<rparr>"
    by simp
  moreover have "w\<lparr>entries := es(?key \<mapsto> e)\<rparr> = globals s"
    using stop.prems(3,4) by (simp add: map_upd_triv)
  then have "s\<lparr>globals := w\<lparr>entries := es(?key \<mapsto> e)\<rparr>, mu := M, goroutines := gs\<rparr> =
      s\<lparr>mu := M, goroutines := gs\<rparr>" for M gs
    by simp
  ultimately show ?case
    unfolding out by (intro exI [where x = 1]) (simp only: option.case)
next
  case (round r e w)
  let ?key = "resolveCacheKey env m p"
  let ?k = "length (fetchLog w)"
  let ?s1 = "s\<lparr>globals := (globals s)\<lparr>fetchLog := fetchLog (globals s) @ [(m, p)]\<rparr>,
         goroutines := (goroutines s)[t := InFetch m p r (length (fetchLog (globals s)))]\<rparr>"
  have here: "entries (globals s) ?key = Some e"
    using round.prems(3,4) by simp
  have s1: "step env t s = ?s1"
    using step_AtLoop [OF round.prems(1,2) here] round.hyps by simp
  have at1: "t < length (goroutines ?s1)" "goroutines ?s1 ! t = InFetch m p r ?k"
    "entries (globals ?s1) ?key = Some e"
    using round.prems(1,3,4) by simp_all
  note s2 = step_InFetch [OF at1]
  show ?case
  proof (cases "attempt env ?k m p")
    case (Inl err)
    let ?e' = "failed (nowAt env (clockReads w)) err e"
    let ?s2 = "step env t ?s1"
    have loop: "tryLoop env m p (Suc r) ?e' (attempted m p w) = (res, e2, w2)"
      using round.prems(5) round.hyps Inl by (subst (asm) tryLoop_step) simp
    have s2': "?s2 = s\<lparr>globals := (attempted m p w)\<lparr>entries := es(?key \<mapsto> ?e')\<rparr>,
        goroutines := (goroutines s)[t := AtLoop m p (Suc r)]\<rparr>"
      using s2 Inl round.prems(3) by (simp add: attempted_def)
    have at2: "t < length (goroutines ?s2)" "goroutines ?s2 ! t = AtLoop m p (Suc r)"
      "globals ?s2 = (attempted m p w)\<lparr>entries := es(?key \<mapsto> ?e')\<rparr>"
      "(es(?key \<mapsto> ?e')) ?key = Some ?e'"
      using round.prems(1) by (simp_all add: s2')
    from round.IH [OF Inl at2 loop] obtain n where
      "run env (replicate n t) ?s2 =
        ?s2\<lparr>globals := w2\<lparr>entries := (es(?key \<mapsto> ?e'))(?key \<mapsto> e2)\<rparr>,
          mu := (mu ?s2)(?key := False),
          goroutines := (goroutines ?s2)
            [t := Returned (case res of
                 Some c \<Rightarrow> Inr c
               | None \<Rightarrow> (case lastErr e2 of None \<Rightarrow> Inl ErrCacheFailure | Some err \<Rightarrow> Inl err))]\<rparr>"
      by blast
    then have "run env (replicate (Suc (Suc n)) t) s =
        s\<lparr>globals := w2\<lparr>entries := es(?key \<mapsto> e2)\<rparr>,
          mu := (mu s)(?key := False),
          goroutines := (goroutines s)
            [t := Returned (case res of
                 Some c \<Rightarrow> Inr c
               | None \<Rightarrow> (case lastErr e2 of None \<Rightarrow> Inl ErrCacheFailure | Some err \<Rightarrow> Inl err))]\<rparr>"
      by (simp add: s1 s2')
    then show ?thesis by blast
  next
    case (Inr c)
    have out: "res = Some c"
      "e2 = fetched (nowAt env (clockReads w)) (resolveMaxAge m p) c e"
      "w2 = (attempted m p w)\<lparr>statCopies := (statCopies w)(?key \<mapsto>
                 (stat e)\<lparr>fetchCount := fetchCount (stat e) + 1\<rparr>)\<rparr>"
      using round.prems(5) round.hyps Inr by (subst (asm) tryLoop_step, simp)+
    have "run env (replicate 2 t) s = step env t ?s1"
      by (simp add: s1 numeral_2_eq_2)
    also have "\<dots> = s\<lparr>globals := w2\<lparr>entries := es(?key \<mapsto> e2)\<rparr>,
          mu := (mu s)(?key := False),
          goroutines := (goroutines s)[t := Returned (Inr c)]\<rparr>"
      using s2 Inr round.prems(3) by (simp add: out attempted_def)
    finally show ?thesis
      unfolding out by (intro exI [where x = 2]) (simp only: option.case)
  qed
qed

lemma settle_unfold:
  "settle env key e w =
     (let tripped = maxErrorsTotal \<le> errCountSinceReset e;
          e1 = (if tripped \<and> lastErrTime e + waitBeforeReset < nowAt env (clockReads w)
                then e\<lparr>errCountSinceReset := 0, lastErr := None\<rparr> else e);
          w1 = (if tripped then w\<lparr>clockReads := Suc (clockReads w)\<rparr> else w)
      in w1\<lparr>entries := (entries w)(key \<mapsto> e1)\<rparr>)"
  by (simp add: settle_def now_def Let_def)

text \<open>
  From line 126 on: a goroutine that has settled the entry and takes all the steps by
  itself does what \<open>refresh\<close> does.
\<close>

lemma refresh_solo:
  assumes t: "t < length (goroutines s)" "goroutines s ! t = AtLoop m p 0"
    and w: "globals s = settle env (resolveCacheKey env m p) e w"
  shows "\<exists>n. run env (replicate n t) s =
    s\<lparr>globals := snd (refresh env m p (resolveCacheKey env m p) e w),
      mu := (mu s)(resolveCacheKey env m p := False),
      goroutines := (goroutines s)
        [t := Returned (fst (refresh env m p (resolveCacheKey env m p) e w))]\<rparr>"
proof -
  let ?key = "resolveCacheKey env m p"
  define tripped where "tripped \<longleftrightarrow> maxErrorsTotal \<le> errCountSinceReset e"
  define e1 where "e1 = (if tripped \<and> lastErrTime e + waitBeforeReset < nowAt env (clockReads w)
                then e\<lparr>errCountSinceReset := 0, lastErr := None\<rparr> else e)"
  define w1 where "w1 = (if tripped then w\<lparr>clockReads := Suc (clockReads w)\<rparr> else w)"
  obtain res e2 w2 where loop: "tryLoop env m p 0 e1 w1 = (res, e2, w2)"
    by (cases "tryLoop env m p 0 e1 w1") auto
  have es: "entries w2 = entries w"
    using tryLoop_entries [OF loop] by (simp add: w1_def)
  have g: "globals s = w1\<lparr>entries := (entries w)(?key \<mapsto> e1)\<rparr>"
    using w by (simp add: settle_unfold tripped_def e1_def w1_def Let_def)
  have r: "refresh env m p ?key e w =
      (case res of
         Some c \<Rightarrow> Inr c
       | None \<Rightarrow> (case lastErr e2 of None \<Rightarrow> Inl ErrCacheFailure | Some err \<Rightarrow> Inl err),
       w2\<lparr>entries := (entries w)(?key \<mapsto> e2)\<rparr>)"
    using loop es
    by (simp add: refresh_unfold Let_def tripped_def [symmetric] e1_def [symmetric]
        w1_def [symmetric])
  from loop_solo [OF t g _ loop] show ?thesis
    unfolding r by simp
qed

lemma step_Locked:
  assumes "t < length (goroutines s)" "goroutines s ! t = Locked m p"
    "entries (globals s) (resolveCacheKey env m p) = Some e"
  shows "step env t s =
    (case col e of
       None \<Rightarrow>
         s\<lparr>globals := settle env (resolveCacheKey env m p) e (globals s),
           goroutines := (goroutines s)[t := AtLoop m p 0]\<rparr>
     | Some c \<Rightarrow>
         if expires e < nowAt env (clockReads (globals s)) then
           s\<lparr>globals := settle env (resolveCacheKey env m p) (e\<lparr>col := None\<rparr>)
               ((globals s)\<lparr>clockReads := Suc (clockReads (globals s))\<rparr>),
             goroutines := (goroutines s)[t := AtLoop m p 0]\<rparr>
         else
           s\<lparr>globals := (globals s)\<lparr>clockReads := Suc (clockReads (globals s)),
               entries := (entries (globals s))(resolveCacheKey env m p \<mapsto>
                 e\<lparr>stat := (stat e)\<lparr>hitCount := hitCount (stat e) + 1\<rparr>\<rparr>),
               statCopies := (statCopies (globals s))(resolveCacheKey env m p \<mapsto>
                 (stat e)\<lparr>hitCount := hitCount (stat e) + 1\<rparr>)\<rparr>,
             mu := (mu s)(resolveCacheKey env m p := False),
             goroutines := (goroutines s)[t := Returned (Inr c)]\<rparr>)"
  using assms
  by (simp add: step_def Let_def now_def cacheSetStat_def split: option.splits)

text \<open>
  A goroutine that finds the mutex of its key free and takes all the steps by itself
  does what \<open>cacheGetList\<close> does: it returns the result of \<open>cacheGetList\<close>, leaves the
  maps and the history as \<open>cacheGetList\<close> leaves them, and the mutex free again.
\<close>

lemma call_solo:
  assumes t: "t < length (goroutines s)" "goroutines s ! t = Called m p"
    and free: "\<not> mu s (resolveCacheKey env m p)"
  shows "\<exists>n. run env (replicate n t) s =
    s\<lparr>globals := snd (cacheGetList env m p (globals s)),
      goroutines := (goroutines s)[t := Returned (fst (cacheGetList env m p (globals s)))]\<rparr>"
proof (cases "entries (globals s) (resolveCacheKey env m p)")
  case None
  then have "run env (replicate 1 t) s =
      s\<lparr>goroutines := (goroutines s)[t := Returned (Inl ErrCacheFailure)]\<rparr>"
    using t by (simp add: step_def)
  moreover have "cacheGetList env m p (globals s) = (Inl ErrCacheFailure, globals s)"
    using None by (simp add: cacheGetList_unfold)
  ultimately show ?thesis
    by (intro exI [where x = 1]) simp
next
  case (Some e)
  let ?key = "resolveCacheKey env m p"
  let ?w = "globals s"
  define s2 where "s2 = s\<lparr>mu := (mu s)(?key := True),
      goroutines := (goroutines s)[t := Locked m p]\<rparr>"
  have two: "run env (replicate 2 t) s = s2"
    using t free Some by (simp add: step_def numeral_2_eq_2 s2_def)
  have at2: "t < length (goroutines s2)" "goroutines s2 ! t = Locked m p"
    "entries (globals s2) ?key = Some e"
    using t Some by (simp_all add: s2_def)
  note s3 = step_Locked [OF at2]
  have unlock: "(mu s2)(?key := False) = mu s"
    using free by (auto simp add: s2_def fun_eq_iff)
  have after: "\<exists>n. run env (replicate n t) s =
      s\<lparr>globals := snd (refresh env m p ?key e0 w0),
        goroutines := (goroutines s)[t := Returned (fst (refresh env m p ?key e0 w0))]\<rparr>"
    if "step env t s2 = s2\<lparr>globals := settle env ?key e0 w0,
        goroutines := (goroutines s2)[t := AtLoop m p 0]\<rparr>" for e0 w0
  proof -
    let ?s3 = "step env t s2"
    have at3: "t < length (goroutines ?s3)" "goroutines ?s3 ! t = AtLoop m p 0"
      "globals ?s3 = settle env ?key e0 w0"
      using t unfolding that by (simp_all add: s2_def)
    from refresh_solo [OF at3] obtain n where
      "run env (replicate n t) ?s3 =
        ?s3\<lparr>globals := snd (refresh env m p ?key e0 w0),
          mu := (mu ?s3)(?key := False),
          goroutines := (goroutines ?s3)[t := Returned (fst (refresh env m p ?key e0 w0))]\<rparr>"
      by blast
    moreover have "mu ?s3 = mu s2" "goroutines ?s3 = (goroutines s)[t := AtLoop m p 0]"
      unfolding that by (simp_all add: s2_def)
    ultimately have "run env (replicate n t) ?s3 =
        s\<lparr>globals := snd (refresh env m p ?key e0 w0),
          goroutines := (goroutines s)[t := Returned (fst (refresh env m p ?key e0 w0))]\<rparr>"
      using unlock unfolding that by (simp add: s2_def)
    moreover have "run env (replicate (2 + Suc n) t) s = run env (replicate n t) ?s3"
      unfolding replicate_add run_append two by simp
    ultimately show ?thesis by metis
  qed
  show ?thesis
  proof (cases "col e")
    case None
    then have "step env t s2 = s2\<lparr>globals := settle env ?key e ?w,
        goroutines := (goroutines s2)[t := AtLoop m p 0]\<rparr>"
      using s3 by (simp add: s2_def)
    from after [OF this] show ?thesis
      using Some None by (simp add: cacheGetList_unfold)
  next
    case (Some c)
    show ?thesis
    proof (cases "expires e < nowAt env (clockReads ?w)")
      case True
      then have "step env t s2 = s2\<lparr>globals := settle env ?key (e\<lparr>col := None\<rparr>)
            (?w\<lparr>clockReads := Suc (clockReads ?w)\<rparr>),
          goroutines := (goroutines s2)[t := AtLoop m p 0]\<rparr>"
        using s3 Some by (simp add: s2_def)
      from after [OF this] show ?thesis
        using \<open>entries ?w ?key = Some e\<close> Some True by (simp add: cacheGetList_unfold)
    next
      case False
      have "run env (replicate (2 + 1) t) s = step env t s2"
        unfolding replicate_add run_append two by simp
      also have "\<dots> = s\<lparr>globals := snd (cacheGetList env m p ?w),
          goroutines := (goroutines s)[t := Returned (fst (cacheGetList env m p ?w))]\<rparr>"
        using s3 Some False \<open>entries ?w ?key = Some e\<close> unlock
        by (simp add: cacheGetList_unfold s2_def)
      finally show ?thesis by blast
    qed
  qed
qed

text \<open>
  The calls one after the other are one of the runs of the goroutines: under the
  schedule that lets each goroutine in turn take all its steps, the goroutines return
  the results of \<open>cacheGetListSeq\<close> and leave its state.
\<close>

lemma serial_run_from:
  "\<exists>sched. run env sched
      \<lparr>globals = w, mu = (\<lambda>key. False),
       goroutines = map Returned ress @ map (\<lambda>(magnitude, past). Called magnitude past) reqs\<rparr> =
     \<lparr>globals = snd (cacheGetListSeq env reqs w), mu = (\<lambda>key. False),
      goroutines = map Returned (ress @ fst (cacheGetListSeq env reqs w))\<rparr>"
proof (induction reqs arbitrary: w ress)
  case Nil
  have "run env []
      \<lparr>globals = w, mu = (\<lambda>key. False), goroutines = map Returned ress @ []\<rparr> =
     \<lparr>globals = w, mu = (\<lambda>key. False), goroutines = map Returned ress\<rparr>"
    by simp
  then show ?case
    by (intro exI [where x = "[]"]) simp
next
  case (Cons req reqs)
  obtain m p where req: "req = (m, p)" by (cases req)
  obtain res w1 where first: "cacheGetList env m p w = (res, w1)"
    by (cases "cacheGetList env m p w") auto
  let ?rest = "map (\<lambda>(magnitude, past). Called magnitude past) reqs"
  let ?s = "\<lparr>globals = w, mu = (\<lambda>key. False),
       goroutines = map Returned ress @ Called m p # ?rest\<rparr>"
  let ?t = "length ress"
  have at: "?t < length (goroutines ?s)" "goroutines ?s ! ?t = Called m p"
    "\<not> mu ?s (resolveCacheKey env m p)"
    by (simp_all add: nth_append)
  from call_solo [OF at] obtain n where
    "run env (replicate n ?t) ?s =
       ?s\<lparr>globals := snd (cacheGetList env m p (globals ?s)),
          goroutines := (goroutines ?s)[?t := Returned (fst (cacheGetList env m p (globals ?s)))]\<rparr>"
    by blast
  then have one: "run env (replicate n ?t) ?s =
      \<lparr>globals = w1, mu = (\<lambda>key. False),
       goroutines = map Returned (ress @ [res]) @ ?rest\<rparr>"
    by (simp add: first list_update_append)
  from Cons.IH [of w1 "ress @ [res]"] obtain sched where
    "run env sched \<lparr>globals = w1, mu = (\<lambda>key. False),
       goroutines = map Returned (ress @ [res]) @ ?rest\<rparr> =
     \<lparr>globals = snd (cacheGetListSeq env reqs w1), mu = (\<lambda>key. False),
      goroutines = map Returned ((ress @ [res]) @ fst (cacheGetListSeq env reqs w1))\<rparr>"
    by blast
  with one have "run env (replicate n ?t @ sched) ?s =
     \<lparr>globals = snd (cacheGetListSeq env (req # reqs) w), mu = (\<lambda>key. False),
      goroutines = map Returned (ress @ fst (cacheGetListSeq env (req # reqs) w))\<rparr>"
    by (simp add: run_append req first split_beta)
  then show ?case
    unfolding req by (intro exI [where x = "replicate n ?t @ sched"]) simp
qed

lemma serial_run:
  "\<exists>sched. run env sched (spawn w reqs) =
     \<lparr>globals = snd (cacheGetListSeq env reqs w), mu = (\<lambda>key. False),
      goroutines = map Returned (fst (cacheGetListSeq env reqs w))\<rparr>"
  using serial_run_from [of env w "[]" reqs] by (simp add: spawn_def)

lemma run_length:
  "length (goroutines (run env sched s)) = length (goroutines s)"
proof (induction sched arbitrary: s)
  case Nil
  then show ?case by simp
next
  case (Cons t sched)
  have "length (goroutines (step env t s)) = length (goroutines s)"
    by (cases rule: step_cases [of env t s]) simp_all
  with Cons.IH [of "step env t s"] show ?case by simp
qed

lemma exclusive_run:
  "exclusive env s \<Longrightarrow> exclusive env (run env sched s)"
  by (induction sched arbitrary: s) (simp_all add: exclusive_step)

lemma within_run:
  "within n s \<Longrightarrow> within n (run env sched s)"
  by (induction sched arbitrary: s) (simp_all add: within_step)

lemma allOn_run:
  "allOn magnitude past s \<Longrightarrow> allOn magnitude past (run env sched s)"
  by (induction sched arbitrary: s) (simp_all add: allOn_step)

lemma coalesced_run:
  assumes "coalesced env magnitude past n s" "exclusive env s" "allOn magnitude past s"
    "within n' s" "\<And>i j. nowAt env i \<le> nowAt env j + resolveMaxAge magnitude past"
  shows "coalesced env magnitude past n (run env sched s)"
  using assms(1-4)
proof (induction sched arbitrary: s)
  case Nil
  then show ?case by simp
next
  case (Cons t sched)
  from Cons.prems assms(5) have "coalesced env magnitude past n (step env t s)"
    by (rule coalesced_step)
  moreover note exclusive_step [OF Cons.prems(2)] allOn_step [OF Cons.prems(3)]
    within_step [OF Cons.prems(4)]
  ultimately show ?case
    using Cons.IH [of "step env t s"] by simp
qed

lemma spawn_fields [simp]:
  "globals (spawn w reqs) = w"
  "length (goroutines (spawn w reqs)) = length reqs"
  "t < length reqs \<Longrightarrow>
     goroutines (spawn w reqs) ! t = Called (fst (reqs ! t)) (snd (reqs ! t))"
  by (simp_all add: spawn_def split_beta)

lemma spawn_exclusive: "exclusive env (spawn w reqs)"
  by (simp add: exclusive_def)

lemma spawn_within: "within (length (fetchLog w)) (spawn w reqs)"
proof -
  have "sum_list (map spent (map (\<lambda>(magnitude, past). Called magnitude past) reqs)) = 0"
    by (induction reqs) (simp_all add: split_beta)
  then show ?thesis
    by (simp add: within_def spawn_def split_beta)
qed

lemma spawn_allOn:
  "\<forall>req\<in>set reqs. req = (magnitude, past) \<Longrightarrow> allOn magnitude past (spawn w reqs)"
  by (auto simp add: allOn_def)

lemma spawn_coalesced:
  "entries w (resolveCacheKey env magnitude past) = Some e \<Longrightarrow> col e = None \<Longrightarrow>
     coalesced env magnitude past (length (fetchLog w)) (spawn w reqs)"
  by (simp add: coalesced_def calm_def)

lemma within_bound:
  assumes "within n s"
  shows "length (fetchLog (globals s)) \<le> n + maxTriesForRequest * length (goroutines s)"
proof -
  have "sum_list (map spent gs) \<le> maxTriesForRequest * length gs"
    if "\<forall>g\<in>set gs. spent g \<le> maxTriesForRequest" for gs
    using that by (induction gs) auto
  moreover have "\<forall>g\<in>set (goroutines s). spent g \<le> maxTriesForRequest"
    using assms by (auto simp add: within_def in_set_conv_nth)
  ultimately show ?thesis
    using assms by (fastforce simp add: within_def)
qed

lemma coalesced_bound:
  assumes "coalesced env magnitude past n s" "within n' s"
  shows "length (fetchLog (globals s)) \<le> n + maxTriesForRequest \<or>
    (\<exists>t<length (goroutines s). \<exists>err. goroutines s ! t = Returned (Inl err))"
proof (cases "\<exists>t<length (goroutines s). \<exists>err. goroutines s ! t = Returned (Inl err)")
  case True
  then show ?thesis by simp
next
  case False
  with assms(1) have "calm env magnitude past n s"
    by (simp add: coalesced_def)
  then obtain e where "entries (globals s) (resolveCacheKey env magnitude past) = Some e"
    and ph: "if col e = None then
           (\<forall>t<length (goroutines s). inLoop (goroutines s ! t) \<longrightarrow>
              length (fetchLog (globals s)) = n + spent (goroutines s ! t)) \<and>
           ((\<forall>t<length (goroutines s). \<not> inLoop (goroutines s ! t)) \<longrightarrow>
              length (fetchLog (globals s)) = n)
         else
           (\<exists>j. expires e = nowAt env j + resolveMaxAge magnitude past) \<and>
           (\<forall>t<length (goroutines s). \<not> inLoop (goroutines s ! t)) \<and>
           length (fetchLog (globals s)) \<le> n + maxTriesForRequest"
    unfolding calm_def by blast
  have le: "spent (goroutines s ! t) \<le> maxTriesForRequest" if "t < length (goroutines s)" for t
    using assms(2) that by (simp add: within_def)
  have "length (fetchLog (globals s)) \<le> n + maxTriesForRequest"
  proof (cases "col e = None")
    case cold: True
    show ?thesis
    proof (cases "\<exists>t<length (goroutines s). inLoop (goroutines s ! t)")
      case True
      then obtain t where "t < length (goroutines s)" "inLoop (goroutines s ! t)" by blast
      with ph cold le [of t] show ?thesis by auto
    next
      case False
      with ph cold show ?thesis by auto
    qed
  next
    case False
    with ph show ?thesis by simp
  qed
  then show ?thesis by simp
qed

lemma present_step:
  assumes "present env s"
  shows "present env (step env t s)"
  using assms
  by (cases rule: step_cases [of env t s])
     (auto simp add: present_def nth_list_update split: if_splits)

lemma present_run:
  "present env s \<Longrightarrow> present env (run env sched s)"
  by (induction sched arbitrary: s) (simp_all add: present_step)

lemma spawn_present: "present env (spawn w reqs)"
  by (auto simp add: present_def)

text \<open>
  A goroutine that takes a step moves, unless it has returned or waits for a locked
  mutex: having found its entry it finds it at every later step.
\<close>

lemma step_moves:
  assumes s: "s = run env sched (spawn w reqs)" and t: "t < length (goroutines s)"
    and same: "goroutines (step env t s) ! t = goroutines s ! t"
  shows "(\<exists>res. goroutines s ! t = Returned res) \<or>
    (\<exists>magnitude past. goroutines s ! t = AtLock magnitude past \<and>
       mu s (resolveCacheKey env magnitude past))"
proof -
  have "present env s"
    unfolding s by (rule present_run [OF spawn_present])
  then have found: "entries (globals s) (resolveCacheKey env magnitude past) \<noteq> None"
    if "requestOf (goroutines s ! t) = Some (magnitude, past)"
      "goroutines s ! t \<noteq> Called magnitude past" for magnitude past
    using that t unfolding present_def by blast
  show ?thesis
  proof (cases rule: step_cases [of env t s])
    case stay
    show ?thesis
    proof (cases "goroutines s ! t")
      case (Called magnitude past)
      with stay t show ?thesis
        by (auto simp add: step_def split: option.splits
            dest!: arg_cong [where f = "\<lambda>s. goroutines s ! t"])
    next
      case (AtLock magnitude past)
      with stay t show ?thesis
        by (auto simp add: step_def Let_def split: if_splits
            dest!: arg_cong [where f = "\<lambda>s. goroutines s ! t"])
    next
      case (Locked magnitude past)
      with found [of magnitude past] obtain e where
        "entries (globals s) (resolveCacheKey env magnitude past) = Some e" by auto
      with stay t Locked show ?thesis
        by (auto simp add: step_def Let_def split_beta split: if_splits option.splits
            dest!: arg_cong [where f = "\<lambda>s. goroutines s ! t"])
    next
      case (AtLoop magnitude past round)
      with found [of magnitude past] obtain e where
        "entries (globals s) (resolveCacheKey env magnitude past) = Some e" by auto
      with stay t AtLoop show ?thesis
        by (auto simp add: step_def Let_def split: if_splits
            dest!: arg_cong [where f = "\<lambda>s. goroutines s ! t"])
    next
      case (InFetch magnitude past round k)
      with found [of magnitude past] obtain e where
        "entries (globals s) (resolveCacheKey env magnitude past) = Some e" by auto
      with stay t InFetch show ?thesis
        by (auto simp add: step_def Let_def split_beta split: sum.splits
            dest!: arg_cong [where f = "\<lambda>s. goroutines s ! t"])
    next
      case (Returned res)
      then show ?thesis by simp
    qed
  qed (use same t in auto)
qed

text \<open>The definitions by which a run of the goroutines is evaluated.\<close>

lemmas machine_defs =
  step_def spawn_def settle_def fetch_def now_def recordError_def cacheSetStat_def

subsection \<open>One fetch in flight for a key\<close>

text \<open>
  C9, amended. At every moment of every run of \<open>n\<close> concurrent calls of \<^verbatim>\<open>cacheGetList\<close>:
  the mutex of a key is locked while a goroutine holds it; no two goroutines hold the
  lock of one key, so no two upstream requests for one key are in flight, each call
  holding the lock from \<^verbatim>\<open>Lock\<close> to its return, the fetch included; the calls have made
  at most \<open>3 * n\<close> upstream requests; and when the calls are all for one request whose
  key was cold, and no clock reading is later than another by more than the maximum age
  of the request, at most three upstream requests have been made unless a call has
  returned an error.
\<close>

theorem cacheGetList_lock_single_flight:
  assumes "s = run env sched (spawn w reqs)"
  shows
    "(\<forall>t<length (goroutines s). \<forall>key. holds env key (goroutines s ! t) \<longrightarrow> mu s key) \<and>
     (\<forall>t<length (goroutines s). \<forall>u<length (goroutines s). \<forall>key.
        holds env key (goroutines s ! t) \<and> holds env key (goroutines s ! u) \<longrightarrow> u = t) \<and>
     (\<forall>t<length (goroutines s). \<forall>u<length (goroutines s). \<forall>key.
        inFlight env key (goroutines s ! t) \<and> inFlight env key (goroutines s ! u) \<longrightarrow> u = t) \<and>
     length (fetchLog (globals s)) \<le> length (fetchLog w) + maxTriesForRequest * length reqs \<and>
     ((\<forall>req\<in>set reqs. req = (magnitude, past)) \<and>
      (\<exists>e. entries w (resolveCacheKey env magnitude past) = Some e \<and> col e = None) \<and>
      (\<forall>i j. nowAt env i \<le> nowAt env j + resolveMaxAge magnitude past) \<longrightarrow>
        length (fetchLog (globals s)) \<le> length (fetchLog w) + maxTriesForRequest \<or>
        (\<exists>t<length (goroutines s). \<exists>err. goroutines s ! t = Returned (Inl err)))"
proof -
  have ex: "exclusive env s"
    unfolding assms by (rule exclusive_run [OF spawn_exclusive])
  have wi: "within (length (fetchLog w)) s"
    unfolding assms by (rule within_run [OF spawn_within])
  have fl: "holds env key g" if "inFlight env key g" for key g
    using that by (cases g) auto
  have locked: "\<forall>t<length (goroutines s). \<forall>key. holds env key (goroutines s ! t) \<longrightarrow> mu s key"
    using ex by (simp add: exclusive_def)
  have alone: "\<forall>t<length (goroutines s). \<forall>u<length (goroutines s). \<forall>key.
        holds env key (goroutines s ! t) \<and> holds env key (goroutines s ! u) \<longrightarrow> u = t"
    using ex unfolding exclusive_def by blast
  then have flight: "\<forall>t<length (goroutines s). \<forall>u<length (goroutines s). \<forall>key.
        inFlight env key (goroutines s ! t) \<and> inFlight env key (goroutines s ! u) \<longrightarrow> u = t"
    using fl by blast
  have total: "length (fetchLog (globals s)) \<le>
      length (fetchLog w) + maxTriesForRequest * length reqs"
    using within_bound [OF wi] by (simp add: assms run_length)
  have one: "length (fetchLog (globals s)) \<le> length (fetchLog w) + maxTriesForRequest \<or>
        (\<exists>t<length (goroutines s). \<exists>err. goroutines s ! t = Returned (Inl err))"
    if same: "\<forall>req\<in>set reqs. req = (magnitude, past)"
      and cold: "\<exists>e. entries w (resolveCacheKey env magnitude past) = Some e \<and> col e = None"
      and clock: "\<forall>i j. nowAt env i \<le> nowAt env j + resolveMaxAge magnitude past"
  proof -
    from cold obtain e where e: "entries w (resolveCacheKey env magnitude past) = Some e"
      "col e = None" by blast
    have "coalesced env magnitude past (length (fetchLog w)) s"
      unfolding assms
      using spawn_coalesced [OF e] spawn_exclusive spawn_allOn [OF same] spawn_within
      by (rule coalesced_run) (use clock in simp)
    from coalesced_bound [OF this wi] show ?thesis .
  qed
  from locked alone flight total one show ?thesis by blast
qed

text \<open>
  The claim as stated fails when the upstream is down. Two goroutines call for the cold
  key of the hour. The second waits at the locked mutex while the first is in its
  retry loop; the first returns the error after three requests and leaves the key
  cold; the second takes the lock and makes three requests more, six in all. The same
  six are made by the two calls one after the other.
\<close>

theorem cacheGetList_lock_single_flight_counterexample:
  "entries coldWorld (resolveCacheKey failingEnv Magnitude_MAGNITUDE_ALL Past_PAST_HOUR) =
     Some newEntry \<and>
   col newEntry = None \<and>
   fst (cacheGetListSeq failingEnv [hourRequest, hourRequest] coldWorld) =
     [Inl (ErrOther ''bad gateway''), Inl (ErrOther ''bad gateway'')] \<and>
   fetchLog (snd (cacheGetListSeq failingEnv [hourRequest, hourRequest] coldWorld)) =
     [hourRequest, hourRequest, hourRequest, hourRequest, hourRequest, hourRequest] \<and>
   goroutines (run failingEnv [1, 0, 0, 0, 0, 0, 1, 1]
       (spawn coldWorld [hourRequest, hourRequest])) =
     [AtLoop Magnitude_MAGNITUDE_ALL Past_PAST_HOUR 1,
      AtLock Magnitude_MAGNITUDE_ALL Past_PAST_HOUR] \<and>
   goroutines (run failingEnv [1, 0, 0, 0, 0, 0, 1, 1, 0, 0, 0, 0, 0, 1, 1, 1, 1, 1, 1, 1, 1, 1]
       (spawn coldWorld [hourRequest, hourRequest])) =
     [Returned (Inl (ErrOther ''bad gateway'')), Returned (Inl (ErrOther ''bad gateway''))] \<and>
   fetchLog (globals (run failingEnv
       [1, 0, 0, 0, 0, 0, 1, 1, 0, 0, 0, 0, 0, 1, 1, 1, 1, 1, 1, 1, 1, 1]
       (spawn coldWorld [hourRequest, hourRequest]))) =
     [hourRequest, hourRequest, hourRequest, hourRequest, hourRequest, hourRequest] \<and>
   maxTriesForRequest < 6"
  by (simp add: machine_defs hourRequest_def run_defs failingEnv_def failingUpstream_def
      coldWorld_eq newEntry_def)

theorem cacheGetList_lock_single_flight_witness:
  "entries coldWorld (resolveCacheKey expiryEnv Magnitude_MAGNITUDE_ALL Past_PAST_HOUR) =
     Some newEntry \<and>
   col newEntry = None \<and>
   hourRequest = (Magnitude_MAGNITUDE_ALL, Past_PAST_HOUR) \<and>
   (\<forall>i j. nowAt expiryEnv i \<le>
      nowAt expiryEnv j + resolveMaxAge Magnitude_MAGNITUDE_ALL Past_PAST_HOUR) \<and>
   goroutines (run expiryEnv [0, 0, 0, 0, 1, 1, 1] (spawn coldWorld [hourRequest, hourRequest])) =
     [InFetch Magnitude_MAGNITUDE_ALL Past_PAST_HOUR 0 0,
      AtLock Magnitude_MAGNITUDE_ALL Past_PAST_HOUR] \<and>
   mu (run expiryEnv [0, 0, 0, 0, 1, 1, 1] (spawn coldWorld [hourRequest, hourRequest]))
     (resolveCacheKey expiryEnv Magnitude_MAGNITUDE_ALL Past_PAST_HOUR) \<and>
   goroutines (run expiryEnv [0, 0, 0, 0, 1, 1, 1, 0, 1, 1]
       (spawn coldWorld [hourRequest, hourRequest])) =
     [Returned (Inr quakes), Returned (Inr quakes)] \<and>
   fetchLog (globals (run expiryEnv [0, 0, 0, 0, 1, 1, 1, 0, 1, 1]
       (spawn coldWorld [hourRequest, hourRequest]))) = [hourRequest] \<and>
   length (fetchLog (globals (run expiryEnv [0, 0, 0, 0, 1, 1, 1, 0, 1, 1]
       (spawn coldWorld [hourRequest, hourRequest])))) \<le>
     length (fetchLog coldWorld) + maxTriesForRequest"
proof -
  let ?mid = "run expiryEnv [0, 0, 0, 0, 1, 1, 1] (spawn coldWorld [hourRequest, hourRequest])"
  let ?end = "run expiryEnv [0, 0, 0, 0, 1, 1, 1, 0, 1, 1]
      (spawn coldWorld [hourRequest, hourRequest])"
  let ?key = "resolveCacheKey expiryEnv Magnitude_MAGNITUDE_ALL Past_PAST_HOUR"
  have cold: "entries coldWorld ?key = Some newEntry" "col newEntry = None"
    by (simp_all add: expiryEnv_def coldWorld_eq newEntry_def)
  have same: "hourRequest = (Magnitude_MAGNITUDE_ALL, Past_PAST_HOUR)"
    "\<forall>req\<in>set [hourRequest, hourRequest]. req = (Magnitude_MAGNITUDE_ALL, Past_PAST_HOUR)"
    by (simp_all add: hourRequest_def)
  have clock: "\<forall>i j. nowAt expiryEnv i \<le>
      nowAt expiryEnv j + resolveMaxAge Magnitude_MAGNITUDE_ALL Past_PAST_HOUR"
    by (simp add: expiryEnv_def resolveMaxAge_def Minute_def)
  have mid: "goroutines ?mid =
      [InFetch Magnitude_MAGNITUDE_ALL Past_PAST_HOUR 0 0,
       AtLock Magnitude_MAGNITUDE_ALL Past_PAST_HOUR]"
    by (simp add: machine_defs hourRequest_def run_defs expiryEnv_def coldWorld_eq newEntry_def)
  have "0 < length (goroutines ?mid) \<and> holds expiryEnv ?key (goroutines ?mid ! 0)"
    by (simp only: mid) (simp add: expiryEnv_def)
  with cacheGetList_lock_single_flight [where s = "?mid" and env = expiryEnv
      and sched = "[0, 0, 0, 0, 1, 1, 1]" and w = coldWorld and reqs = "[hourRequest, hourRequest]"
      and magnitude = Magnitude_MAGNITUDE_ALL and past = Past_PAST_HOUR]
  have locked: "mu ?mid ?key"
    by blast
  have fin: "goroutines ?end = [Returned (Inr quakes), Returned (Inr quakes)]"
    "fetchLog (globals ?end) = [hourRequest]"
    by (simp_all add: machine_defs hourRequest_def run_defs expiryEnv_def coldWorld_eq
        newEntry_def exampleParse_def quakes_def)
  have "\<not> (\<exists>t<length (goroutines ?end). \<exists>err. goroutines ?end ! t = Returned (Inl err))"
    by (simp only: fin) (simp add: less_Suc_eq nth_Cons')
  with cacheGetList_lock_single_flight [where s = "?end" and env = expiryEnv
      and sched = "[0, 0, 0, 0, 1, 1, 1, 0, 1, 1]" and w = coldWorld
      and reqs = "[hourRequest, hourRequest]"
      and magnitude = Magnitude_MAGNITUDE_ALL and past = Past_PAST_HOUR] cold same(2) clock
  have "length (fetchLog (globals ?end)) \<le> length (fetchLog coldWorld) + maxTriesForRequest"
    by blast
  with cold same(1) clock mid locked fin show ?thesis by blast
qed

end
